theory Spec2Isabelle
  imports Main "HOL-Library.Word"
begin

unbundle bit_operations_syntax

section \<open>Adler-32 (adler32.c)\<close>

text \<open>
  \<^verbatim>\<open>uLong\<close> is \<^verbatim>\<open>unsigned long\<close>. Its width is taken as 32 bits, the narrowest the
  language allows and the one the comment on \<^verbatim>\<open>NMAX\<close> speaks about; every sum below
  wraps modulo \<open>2^32\<close>. A buffer is a byte list, \<open>None\<close> for \<^verbatim>\<open>Z_NULL\<close>; the length is a
  separate argument as in the source. A read through \<^verbatim>\<open>Z_NULL\<close> or past the end of the
  buffer has no defined result in C: the model returns \<open>None\<close> there.
\<close>

type_synonym Bytef = "8 word"
type_synonym uLong = "32 word"

definition BASE :: uLong where
  "BASE = 65521"

definition NMAX :: nat where
  "NMAX = 5552"

text \<open>\<^verbatim>\<open>#define DO1(buf,i)  {adler += (buf)[i]; sum2 += adler;}\<close> on the pair (adler, sum2).\<close>

fun DO1 :: "uLong \<times> uLong \<Rightarrow> Bytef \<Rightarrow> uLong \<times> uLong" where
  "DO1 (adler, sum2) b = (adler + ucast b, sum2 + (adler + ucast b))"

text \<open>\<^verbatim>\<open>DO16(buf)\<close>: \<^verbatim>\<open>DO1\<close> on \<^verbatim>\<open>buf[0]\<close> .. \<^verbatim>\<open>buf[15]\<close>, in this order.\<close>

definition DO16 :: "Bytef list \<Rightarrow> uLong \<times> uLong \<Rightarrow> uLong \<times> uLong" where
  "DO16 buf st = foldl DO1 st (take 16 buf)"

text \<open>\<^verbatim>\<open>while (len--) { adler += *buf++; sum2 += adler; }\<close>\<close>

fun bytes_loop :: "nat \<Rightarrow> Bytef list \<Rightarrow> uLong \<times> uLong \<Rightarrow> uLong \<times> uLong" where
  "bytes_loop 0 buf st = st"
| "bytes_loop (Suc len) buf st = bytes_loop len (tl buf) (DO1 st (hd buf))"

text \<open>\<^verbatim>\<open>while (len >= 16) { len -= 16; DO16(buf); buf += 16; }\<close>\<close>

function do16_while :: "nat \<Rightarrow> Bytef list \<Rightarrow> uLong \<times> uLong \<Rightarrow> nat \<times> Bytef list \<times> (uLong \<times> uLong)" where
  "do16_while len buf st =
     (if len \<ge> 16 then do16_while (len - 16) (drop 16 buf) (DO16 buf st)
      else (len, buf, st))"
  by pat_completeness auto
termination
  by (relation "measure (\<lambda>(len, buf, st). len)") auto

declare do16_while.simps [simp del]

text \<open>\<^verbatim>\<open>do { DO16(buf); buf += 16; } while (--n);\<close> It is entered with \<open>n = NMAX / 16\<close> only.\<close>

function do16_until :: "nat \<Rightarrow> Bytef list \<Rightarrow> uLong \<times> uLong \<Rightarrow> Bytef list \<times> (uLong \<times> uLong)" where
  "do16_until n buf st =
     (if n - 1 \<noteq> 0 then do16_until (n - 1) (drop 16 buf) (DO16 buf st)
      else (drop 16 buf, DO16 buf st))"
  by pat_completeness auto
termination
  by (relation "measure (\<lambda>(n, buf, st). n)") auto

declare do16_until.simps [simp del]

text \<open>
  \<^verbatim>\<open>while (len >= NMAX) { len -= NMAX; n = NMAX / 16; do ... while (--n); MOD(adler); MOD(sum2); }\<close>
  with \<^verbatim>\<open>MOD(a)\<close> being \<^verbatim>\<open>a %= BASE\<close> (no \<^verbatim>\<open>NO_DIVIDE\<close>).
\<close>

function nmax_while :: "nat \<Rightarrow> Bytef list \<Rightarrow> uLong \<times> uLong \<Rightarrow> nat \<times> Bytef list \<times> (uLong \<times> uLong)" where
  "nmax_while len buf st =
     (if len \<ge> NMAX then
        (case do16_until (NMAX div 16) buf st of
           (buf', (adler, sum2)) \<Rightarrow> nmax_while (len - NMAX) buf' (adler mod BASE, sum2 mod BASE))
      else (len, buf, st))"
  by pat_completeness auto
termination
  by (relation "measure (\<lambda>(len, buf, st). len)") (auto simp: NMAX_def)

declare nmax_while.simps [simp del]

definition adler32_z :: "uLong \<Rightarrow> Bytef list option \<Rightarrow> nat \<Rightarrow> uLong option" where
  "adler32_z adler0 buf len =
     (let sum2 = drop_bit 16 adler0 AND 0xffff;
          adler = adler0 AND 0xffff
      in if len = 1 then
           (case buf of
              None \<Rightarrow> None
            | Some bs \<Rightarrow>
                if bs = [] then None
                else
                  let adler = adler + ucast (bs ! 0);
                      adler = (if adler \<ge> BASE then adler - BASE else adler);
                      sum2 = sum2 + adler;
                      sum2 = (if sum2 \<ge> BASE then sum2 - BASE else sum2)
                  in Some (adler OR push_bit 16 sum2))
         else
           (case buf of
              None \<Rightarrow> Some 1
            | Some bs \<Rightarrow>
                if length bs < len then None
                else if len < 16 then
                  (case bytes_loop len bs (adler, sum2) of
                     (adler, sum2) \<Rightarrow>
                       let adler = (if adler \<ge> BASE then adler - BASE else adler);
                           sum2 = sum2 mod BASE
                       in Some (adler OR push_bit 16 sum2))
                else
                  (case nmax_while len bs (adler, sum2) of
                     (len, bs, (adler, sum2)) \<Rightarrow>
                       if len \<noteq> 0 then
                         (case do16_while len bs (adler, sum2) of
                            (len, bs, st) \<Rightarrow>
                              (case bytes_loop len bs st of
                                 (adler, sum2) \<Rightarrow>
                                   Some (adler mod BASE OR push_bit 16 (sum2 mod BASE))))
                       else Some (adler OR push_bit 16 sum2))))"

text \<open>\<^verbatim>\<open>uLong adler32(uLong adler, const Bytef *buf, uInt len)\<close>: \<^verbatim>\<open>uInt\<close> is 32 bits wide.\<close>

definition adler32 :: "uLong \<Rightarrow> Bytef list option \<Rightarrow> 32 word \<Rightarrow> uLong option" where
  "adler32 adler buf len = adler32_z adler buf (unat len)"

text \<open>
  \<^verbatim>\<open>adler32_combine_\<close> (a name cannot end in an underscore here, hence the prime):
  \<^verbatim>\<open>len2\<close> is a signed 64-bit \<^verbatim>\<open>z_off64_t\<close>, \<^verbatim>\<open>rem\<close> a 32-bit
  \<^verbatim>\<open>unsigned\<close>. \<^verbatim>\<open>MOD63(len2)\<close> is \<^verbatim>\<open>len2 %= BASE\<close> on a value known not to be negative.
\<close>

definition adler32_combine' :: "uLong \<Rightarrow> uLong \<Rightarrow> 64 word \<Rightarrow> uLong" where
  "adler32_combine' adler1 adler2 len2 =
     (if sint len2 < 0 then 0xffffffff
      else
        let len2 = len2 mod 65521;
            rem = (ucast len2 :: 32 word);
            sum1 = adler1 AND 0xffff;
            sum2 = rem * sum1;
            sum2 = sum2 mod BASE;
            sum1 = sum1 + ((adler2 AND 0xffff) + BASE - 1);
            sum2 = sum2 + ((drop_bit 16 adler1 AND 0xffff) + (drop_bit 16 adler2 AND 0xffff) + BASE - rem);
            sum1 = (if sum1 \<ge> BASE then sum1 - BASE else sum1);
            sum1 = (if sum1 \<ge> BASE then sum1 - BASE else sum1);
            sum2 = (if sum2 \<ge> push_bit 1 BASE then sum2 - push_bit 1 BASE else sum2);
            sum2 = (if sum2 \<ge> BASE then sum2 - BASE else sum2)
        in sum1 OR push_bit 16 sum2)"

text \<open>
  \<^verbatim>\<open>adler32_combine\<close> takes a \<^verbatim>\<open>z_off_t\<close>, a \<^verbatim>\<open>long\<close>: 32 bits where \<^verbatim>\<open>unsigned long\<close>
  is, converted to \<^verbatim>\<open>z_off64_t\<close> with its sign. \<^verbatim>\<open>adler32_combine64\<close> passes its
  arguments on unchanged.
\<close>

definition adler32_combine :: "uLong \<Rightarrow> uLong \<Rightarrow> 32 word \<Rightarrow> uLong" where
  "adler32_combine adler1 adler2 len2 = adler32_combine' adler1 adler2 (scast len2)"

definition adler32_combine64 :: "uLong \<Rightarrow> uLong \<Rightarrow> 64 word \<Rightarrow> uLong" where
  "adler32_combine64 adler1 adler2 len2 = adler32_combine' adler1 adler2 len2"

subsection \<open>The reference definition of the checksum\<close>

text \<open>
  The accumulator definition in the words of the specification, on exact integers:
  \<open>s1 = a mod 2^16\<close>, \<open>s2 = a >> 16\<close>; the new \<open>s1\<close> is \<open>s1\<close> plus the sum of the bytes,
  the new \<open>s2\<close> is \<open>s2\<close> plus the sum of the successive values of \<open>s1\<close> (one for every
  prefix of the bytes), both modulo 65521; the checksum is \<open>(s2 << 16) | s1\<close>.
\<close>

definition adler32_spec :: "uLong \<Rightarrow> Bytef list \<Rightarrow> uLong" where
  "adler32_spec a bs =
     (let s1 = unat a mod 2 ^ 16;
          s2 = unat a div 2 ^ 16;
          s1' = (s1 + (\<Sum>b\<leftarrow>bs. unat b)) mod 65521;
          s2' = (s2 + (\<Sum>k\<leftarrow>[1..<Suc (length bs)]. s1 + (\<Sum>b\<leftarrow>take k bs. unat b))) mod 65521
      in push_bit 16 (word_of_nat s2') OR word_of_nat s1')"

subsection \<open>Exact sums and chunked updates\<close>

text \<open>
  The two running sums of \<^verbatim>\<open>DO1\<close> on natural numbers, without any wrap-around: the
  yardstick for the 32-bit sums of the code.
\<close>

definition exact_DO1 :: "nat \<times> nat \<Rightarrow> nat \<Rightarrow> nat \<times> nat" where
  "exact_DO1 st b = (fst st + b, snd st + (fst st + b))"

definition exact_sums :: "nat \<times> nat \<Rightarrow> Bytef list \<Rightarrow> nat \<times> nat" where
  "exact_sums st bs = foldl exact_DO1 st (map unat bs)"

text \<open>
  A caller updating a running checksum chunk by chunk:
  \<^verbatim>\<open>adler = adler32(adler, buffer, length)\<close> for each chunk in turn.
\<close>

fun adler32_chunks :: "uLong \<Rightarrow> Bytef list list \<Rightarrow> uLong option" where
  "adler32_chunks a [] = Some a"
| "adler32_chunks a (c # cs) =
     (case adler32_z a (Some c) (length c) of None \<Rightarrow> None | Some a' \<Rightarrow> adler32_chunks a' cs)"

text \<open>
  When one call agrees with the reference definition: the length is not 1, or the single
  conditional subtraction of the one-byte path is a reduction, which it is when
  \<open>s2 + ((s1 + b) mod 65521)\<close> is below twice 65521 for the halves \<open>s1\<close>, \<open>s2\<close> of the
  accumulator and the byte \<open>b\<close>.
\<close>

definition adler32_proviso :: "uLong \<Rightarrow> Bytef list \<Rightarrow> bool" where
  "adler32_proviso a bs =
     (length bs \<noteq> 1 \<or> unat a div 65536 + (unat a mod 65536 + unat (hd bs)) mod 65521 < 131042)"

section \<open>Adler-32: proofs\<close>

subsection \<open>Exact sums\<close>


lemma exact_sums_Nil [simp]: "exact_sums st [] = st"
  by (simp add: exact_sums_def)

lemma exact_sums_Cons [simp]: "exact_sums st (b # bs) = exact_sums (exact_DO1 st (unat b)) bs"
  by (simp add: exact_sums_def)

lemma exact_sums_append: "exact_sums st (xs @ ys) = exact_sums (exact_sums st xs) ys"
  by (simp add: exact_sums_def)

lemma exact_sums_snoc: "exact_sums st (xs @ [b]) = exact_DO1 (exact_sums st xs) (unat b)"
  by (simp add: exact_sums_def)

lemma sum_prefix_snoc:
  "(\<Sum>k\<leftarrow>[1..<Suc (length (xs @ [b]))]. s1 + (\<Sum>c\<leftarrow>take k (xs @ [b]). unat c)) =
   (\<Sum>k\<leftarrow>[1..<Suc (length xs)]. s1 + (\<Sum>c\<leftarrow>take k xs. unat c)) + (s1 + (\<Sum>c\<leftarrow>xs. unat c) + unat b)"
proof -
  have "map (\<lambda>k. s1 + (\<Sum>c\<leftarrow>take k (xs @ [b]). unat c)) [1..<Suc (length xs)]
      = map (\<lambda>k. s1 + (\<Sum>c\<leftarrow>take k xs. unat c)) [1..<Suc (length xs)]"
  proof (rule map_cong)
    fix k assume "k \<in> set [1..<Suc (length xs)]"
    then have "k \<le> length xs" by auto
    then show "s1 + (\<Sum>c\<leftarrow>take k (xs @ [b]). unat c) = s1 + (\<Sum>c\<leftarrow>take k xs. unat c)" by simp
  qed simp
  note eq = this
  have u: "[1..<Suc (length (xs @ [b]))] = [1..<Suc (length xs)] @ [Suc (length xs)]" by simp
  show ?thesis by (simp only: u map_append sum_list_append eq) simp
qed

lemma exact_sums_closed:
  "exact_sums (s1, s2) bs =
     (s1 + (\<Sum>b\<leftarrow>bs. unat b), s2 + (\<Sum>k\<leftarrow>[1..<Suc (length bs)]. s1 + (\<Sum>b\<leftarrow>take k bs. unat b)))"
proof (induction bs rule: rev_induct)
  case Nil
  then show ?case by simp
next
  case (snoc b bs)
  show ?case
    unfolding exact_sums_snoc snoc.IH sum_prefix_snoc
    by (simp add: exact_DO1_def)
qed

lemma foldl_DO1_exact:
  "foldl DO1 (word_of_nat s1, word_of_nat s2) bs =
     (word_of_nat (fst (exact_sums (s1, s2) bs)), word_of_nat (snd (exact_sums (s1, s2) bs)))"
proof (induction bs arbitrary: s1 s2)
  case Nil
  then show ?case by simp
next
  case (Cons b bs)
  have "DO1 (word_of_nat s1, word_of_nat s2) b = (word_of_nat (s1 + unat b), word_of_nat (s2 + (s1 + unat b)))"
    by simp
  then show ?case using Cons.IH [of "s1 + unat b" "s2 + (s1 + unat b)"]
    by (simp add: exact_DO1_def)
qed

lemma exact_sums_bound:
  "fst (exact_sums (s1, s2) bs) \<le> s1 + 255 * length bs \<and>
   2 * snd (exact_sums (s1, s2) bs) \<le> 2 * s2 + 2 * length bs * s1 + 255 * (length bs * (length bs + 1))"
proof (induction bs arbitrary: s1 s2)
  case Nil
  then show ?case by simp
next
  case (Cons b bs)
  define n where "n = length bs"
  define x where "x = unat b"
  define r where "r = exact_sums (s1 + x, s2 + (s1 + x)) bs"
  have "unat b < 2 ^ LENGTH(8)" by (rule unsigned_less)
  then have b: "x \<le> 255" by (simp add: x_def)
  have ih1: "fst r \<le> (s1 + x) + 255 * n"
    and ih2: "2 * snd r \<le> 2 * (s2 + (s1 + x)) + 2 * n * (s1 + x) + 255 * (n * (n + 1))"
    using Cons.IH [of "s1 + x" "s2 + (s1 + x)"] by (simp_all add: n_def r_def)
  have nx: "n * x \<le> n * 255" using b by simp
  have 1: "fst r \<le> s1 + 255 * (n + 1)" using ih1 b by simp
  have "2 * (s2 + (s1 + x)) + 2 * n * (s1 + x) + 255 * (n * (n + 1))
        = 2 * s2 + 2 * (n + 1) * s1 + 255 * (n * (n + 1)) + 2 * x + 2 * (n * x)"
    by (simp add: algebra_simps)
  also have "\<dots> \<le> 2 * s2 + 2 * (n + 1) * s1 + 255 * (n * (n + 1)) + 2 * 255 + 2 * (n * 255)"
    using b nx by linarith
  also have "\<dots> = 2 * s2 + 2 * (n + 1) * s1 + 255 * ((n + 1) * (n + 1 + 1))"
    by (simp add: algebra_simps)
  finally have 2: "2 * snd r \<le> 2 * s2 + 2 * (n + 1) * s1 + 255 * ((n + 1) * (n + 1 + 1))"
    using ih2 by simp
  show ?case using 1 2 by (simp add: exact_DO1_def n_def x_def r_def)
qed

lemma exact_sums_cong:
  "s1 mod m = t1 mod m \<Longrightarrow> s2 mod m = t2 mod m \<Longrightarrow>
   fst (exact_sums (s1, s2) bs) mod m = fst (exact_sums (t1, t2) bs) mod m \<and>
   snd (exact_sums (s1, s2) bs) mod m = snd (exact_sums (t1, t2) bs) mod m"
proof (induction bs arbitrary: s1 s2 t1 t2)
  case Nil
  then show ?case by simp
next
  case (Cons b bs)
  have 1: "(s1 + unat b) mod m = (t1 + unat b) mod m"
    using Cons.prems(1) by (rule mod_add_cong) simp
  have 2: "(s2 + (s1 + unat b)) mod m = (t2 + (t1 + unat b)) mod m"
    using Cons.prems(2) 1 by (rule mod_add_cong)
  show ?case using Cons.IH [OF 1 2] by (simp add: exact_DO1_def)
qed

lemma bytes_loop_foldl:
  "len \<le> length buf \<Longrightarrow> bytes_loop len buf st = foldl DO1 st (take len buf)"
proof (induction len arbitrary: buf st)
  case 0
  then show ?case by simp
next
  case (Suc len)
  then obtain b bs where buf: "buf = b # bs" by (cases buf) auto
  with Suc show ?case by simp
qed

lemma do16_while_eq:
  "len \<le> length buf \<Longrightarrow>
   do16_while len buf st =
     (len mod 16, drop (len - len mod 16) buf, foldl DO1 st (take (len - len mod 16) buf))"
proof (induction len buf st rule: do16_while.induct)
  case (1 len buf st)
  show ?case
  proof (cases "len \<ge> 16")
    case True
    have m: "(len - 16) mod 16 = len mod 16" using True by (simp add: le_mod_geq)
    have "(len - 16) mod 16 \<le> len - 16" by (rule mod_less_eq_dividend)
    then have l: "len - len mod 16 = 16 + (len - 16 - len mod 16)"
      using True unfolding m by linarith
    have ih: "do16_while (len - 16) (drop 16 buf) (DO16 buf st) =
       (len mod 16, drop (len - 16 - len mod 16) (drop 16 buf),
        foldl DO1 (DO16 buf st) (take (len - 16 - len mod 16) (drop 16 buf)))"
      using "1.IH" [OF True] "1.prems" True m by simp
    have t: "take (len - len mod 16) buf = take 16 buf @ take (len - 16 - len mod 16) (drop 16 buf)"
      unfolding l by (simp add: take_add)
    have d: "drop (len - len mod 16) buf = drop (len - 16 - len mod 16) (drop 16 buf)"
      unfolding l by (simp add: add.commute)
    have st: "do16_while len buf st = do16_while (len - 16) (drop 16 buf) (DO16 buf st)"
      using True by (subst do16_while.simps) simp
    show ?thesis unfolding st ih t d by (simp add: DO16_def)
  next
    case False
    then show ?thesis by (subst do16_while.simps) simp
  qed
qed

lemma tail_loops_foldl:
  assumes "len \<le> length buf"
  shows "(case do16_while len buf st of (l, b, st') \<Rightarrow> bytes_loop l b st') = foldl DO1 st (take len buf)"
proof -
  define k where "k = len - len mod 16"
  have len: "len = k + len mod 16" by (simp add: k_def)
  have "bytes_loop (len mod 16) (drop k buf) (foldl DO1 st (take k buf))
        = foldl DO1 (foldl DO1 st (take k buf)) (take (len mod 16) (drop k buf))"
    using assms len by (intro bytes_loop_foldl) simp
  also have "\<dots> = foldl DO1 st (take k buf @ take (len mod 16) (drop k buf))" by simp
  also have "take k buf @ take (len mod 16) (drop k buf) = take (k + len mod 16) buf"
    by (simp add: take_add)
  also have "k + len mod 16 = len" using len by simp
  finally show ?thesis using assms by (simp add: do16_while_eq k_def)
qed

lemma do16_until_eq:
  "1 \<le> n \<Longrightarrow> do16_until n buf st = (drop (16 * n) buf, foldl DO1 st (take (16 * n) buf))"
proof (induction n buf st rule: do16_until.induct)
  case (1 n buf st)
  show ?case
  proof (cases "n - 1 \<noteq> 0")
    case True
    then have n: "16 * n = 16 + 16 * (n - 1)" by simp
    have ih: "do16_until (n - 1) (drop 16 buf) (DO16 buf st) =
        (drop (16 * (n - 1)) (drop 16 buf), foldl DO1 (DO16 buf st) (take (16 * (n - 1)) (drop 16 buf)))"
      using "1.IH" [OF True] True by simp
    have st: "do16_until n buf st = do16_until (n - 1) (drop 16 buf) (DO16 buf st)"
      using True by (subst do16_until.simps) simp
    have t: "take (16 * n) buf = take 16 buf @ take (16 * (n - 1)) (drop 16 buf)"
      unfolding n by (simp add: take_add)
    have d: "drop (16 * n) buf = drop (16 * (n - 1)) (drop 16 buf)"
      unfolding n by (simp add: add.commute)
    show ?thesis unfolding st ih t d by (simp add: DO16_def)
  next
    case False
    with "1.prems" have "n = 1" by simp
    then show ?thesis by (subst do16_until.simps) (simp add: DO16_def)
  qed
qed

lemma foldl_DO1_unat:
  "foldl DO1 (adler, sum2) bs =
     (word_of_nat (fst (exact_sums (unat adler, unat sum2) bs)),
      word_of_nat (snd (exact_sums (unat adler, unat sum2) bs)))"
  using foldl_DO1_exact [of "unat adler" "unat sum2" bs] by simp

lemma exact_sums_no_overflow:
  assumes "s1 \<le> 65535" "s2 \<le> 65535" "length bs \<le> 5552"
  shows "fst (exact_sums (s1, s2) bs) \<le> 1481295" "snd (exact_sums (s1, s2) bs) \<le> 4294773495"
proof -
  define n where "n = length bs"
  have n: "n \<le> 5552" using assms by (simp add: n_def)
  have b1: "fst (exact_sums (s1, s2) bs) \<le> s1 + 255 * n"
    and b2: "2 * snd (exact_sums (s1, s2) bs) \<le> 2 * s2 + 2 * n * s1 + 255 * (n * (n + 1))"
    using exact_sums_bound [of s1 s2 bs] by (simp_all add: n_def)
  show "fst (exact_sums (s1, s2) bs) \<le> 1481295" using b1 n assms(1) by simp
  have "n * s1 \<le> 5552 * 65535" using n assms(1) by (rule mult_le_mono)
  moreover have "n * (n + 1) \<le> 5552 * 5553" using n by (intro mult_le_mono) simp_all
  ultimately show "snd (exact_sums (s1, s2) bs) \<le> 4294773495" using b2 assms(2) by simp
qed

lemma ffff_mask: "(0xffff :: 32 word) = mask 16"
  by (simp add: mask_eq_exp_minus_1)

lemma lo16: "unat (a AND 0xffff :: 32 word) = unat a mod 65536"
  unfolding ffff_mask by (simp flip: take_bit_eq_mask add: take_bit_eq_mod unat_mod)

lemma hi16: "unat (drop_bit 16 a AND 0xffff :: 32 word) = unat a div 65536"
proof -
  have "drop_bit 16 a AND mask 16 = drop_bit 16 a"
    by (rule bit_word_eqI) (auto simp: bit_simps dest: bit_imp_le_length)
  then show ?thesis unfolding ffff_mask by (simp add: drop_bit_eq_div unat_div)
qed

lemma join_lo:
  fixes x y :: "32 word"
  assumes "unat x < 65536"
  shows "(x OR push_bit 16 y) AND 0xffff = x"
proof -
  have "x < 2 ^ 16" using assms by (simp add: word_less_nat_alt)
  then have "take_bit 16 x = x" by (simp add: less_mask_eq take_bit_eq_mask)
  then have x: "\<And>n. bit x n \<Longrightarrow> n < 16"
    by (metis bit_take_bit_iff)
  show ?thesis unfolding ffff_mask
    by (rule bit_word_eqI) (auto simp: bit_simps dest: x)
qed

lemma join_hi:
  fixes x y :: "32 word"
  assumes "unat x < 65536" "unat y < 65536"
  shows "drop_bit 16 (x OR push_bit 16 y) AND 0xffff = y"
proof -
  have "x < 2 ^ 16" using assms by (simp add: word_less_nat_alt)
  then have "take_bit 16 x = x" by (simp add: less_mask_eq take_bit_eq_mask)
  then have x: "\<And>n. bit x n \<Longrightarrow> n < 16"
    by (metis bit_take_bit_iff)
  have "y < 2 ^ 16" using assms by (simp add: word_less_nat_alt)
  then have "take_bit 16 y = y" by (simp add: less_mask_eq take_bit_eq_mask)
  then have y: "\<And>n. bit y n \<Longrightarrow> n < 16"
    by (metis bit_take_bit_iff)
  show ?thesis unfolding ffff_mask
    by (rule bit_word_eqI) (auto simp: bit_simps dest: x y)
qed


lemma adler32_spec_alt:
  "adler32_spec a bs =
     push_bit 16 (word_of_nat (snd (exact_sums (unat a mod 65536, unat a div 65536) bs) mod 65521))
       OR word_of_nat (fst (exact_sums (unat a mod 65536, unat a div 65536) bs) mod 65521)"
  by (simp add: adler32_spec_def exact_sums_closed Let_def)

lemma word_sums:
  fixes adler sum2 :: uLong
  assumes "unat adler \<le> 65535" "unat sum2 \<le> 65535" "length bs \<le> 5552"
  shows "unat (fst (foldl DO1 (adler, sum2) bs)) = fst (exact_sums (unat adler, unat sum2) bs)"
    and "unat (snd (foldl DO1 (adler, sum2) bs)) = snd (exact_sums (unat adler, unat sum2) bs)"
proof -
  have 1: "fst (exact_sums (unat adler, unat sum2) bs) < 2 ^ 32"
    using exact_sums_no_overflow(1) [OF assms] by simp
  have 2: "snd (exact_sums (unat adler, unat sum2) bs) < 2 ^ 32"
    using exact_sums_no_overflow(2) [OF assms] by simp
  show "unat (fst (foldl DO1 (adler, sum2) bs)) = fst (exact_sums (unat adler, unat sum2) bs)"
    using 1 by (simp add: foldl_DO1_unat unat_of_nat)
  show "unat (snd (foldl DO1 (adler, sum2) bs)) = snd (exact_sums (unat adler, unat sum2) bs)"
    using 2 by (simp add: foldl_DO1_unat unat_of_nat)
qed

lemma cond_sub_BASE:
  fixes x :: uLong
  assumes "unat x < 131042"
  shows "unat (if x \<ge> BASE then x - BASE else x) = unat x mod 65521"
proof (cases "x \<ge> BASE")
  case True
  then have le: "65521 \<le> unat x" by (simp add: BASE_def word_le_nat_alt)
  have "unat (x - BASE) = unat x - 65521" using True by (simp add: unat_sub BASE_def)
  moreover have "unat x mod 65521 = unat x - 65521"
    using le assms by (simp add: le_mod_geq)
  ultimately show ?thesis using True by simp
next
  case False
  then have "unat x < 65521" by (simp add: BASE_def word_le_nat_alt)
  then show ?thesis using False by simp
qed

lemma unat_mod_BASE: "unat (x mod BASE) = unat x mod 65521"
  by (simp add: unat_mod BASE_def)

lemma word_of_unat_eq: "unat (w :: uLong) = n \<Longrightarrow> w = word_of_nat n"
  by auto


lemma nmax_while_spec:
  fixes st :: "uLong \<times> uLong"
  assumes "unat (fst st) \<le> 65535" "unat (snd st) \<le> 65535" "len \<le> length buf"
  shows "\<exists>a' s'. nmax_while len buf st = (len mod NMAX, drop (len - len mod NMAX) buf, (a', s'))
           \<and> unat a' \<le> 65535 \<and> unat s' \<le> 65535
           \<and> unat a' mod 65521 = fst (exact_sums (unat (fst st), unat (snd st)) (take (len - len mod NMAX) buf)) mod 65521
           \<and> unat s' mod 65521 = snd (exact_sums (unat (fst st), unat (snd st)) (take (len - len mod NMAX) buf)) mod 65521
           \<and> (NMAX \<le> len \<longrightarrow> unat a' < 65521 \<and> unat s' < 65521)"
  using assms
proof (induction len buf st rule: nmax_while.induct)
  case (1 len buf st)
  obtain adler sum2 where st: "st = (adler, sum2)" by (cases st)
  note prems = "1.prems" [unfolded st fst_conv snd_conv]
  show ?case
  proof (cases "len \<ge> NMAX")
    case False
    then have "len mod NMAX = len" by simp
    with False "1.prems" show ?thesis
      by (subst nmax_while.simps) (simp add: st)
  next
    case True
    define blk where "blk = take 5552 buf"
    define E where "E = exact_sums (unat adler, unat sum2) blk"
    define a1 where "a1 = fst (foldl DO1 (adler, sum2) blk) mod BASE"
    define s1 where "s1 = snd (foldl DO1 (adler, sum2) blk) mod BASE"
    define k where "k = len - NMAX - (len - NMAX) mod NMAX"
    have lb: "length blk \<le> 5552" by (simp add: blk_def)
    have du: "do16_until (NMAX div 16) buf st = (drop 5552 buf, foldl DO1 (adler, sum2) blk)"
      using do16_until_eq [of 347 buf "(adler, sum2)"] by (simp add: NMAX_def blk_def st)
    have ua1: "unat a1 = fst E mod 65521"
      using word_sums(1) [OF prems(1,2) lb] by (simp add: a1_def unat_mod_BASE E_def)
    have us1: "unat s1 = snd E mod 65521"
      using word_sums(2) [OF prems(1,2) lb] by (simp add: s1_def unat_mod_BASE E_def)
    have a1b: "unat a1 < 65521" and s1b: "unat s1 < 65521" by (simp_all add: ua1 us1)
    have len': "len - NMAX \<le> length (drop 5552 buf)" using "1.prems"(3) True by (simp add: NMAX_def)
    have step: "nmax_while len buf st = nmax_while (len - NMAX) (drop 5552 buf) (a1, s1)"
      using True by (subst nmax_while.simps) (simp add: du a1_def s1_def split: prod.split)
    have "\<exists>a' s'. nmax_while (len - NMAX) (drop 5552 buf) (a1, s1) =
            ((len - NMAX) mod NMAX, drop k (drop 5552 buf), (a', s'))
           \<and> unat a' \<le> 65535 \<and> unat s' \<le> 65535
           \<and> unat a' mod 65521 = fst (exact_sums (unat a1, unat s1) (take k (drop 5552 buf))) mod 65521
           \<and> unat s' mod 65521 = snd (exact_sums (unat a1, unat s1) (take k (drop 5552 buf))) mod 65521
           \<and> (NMAX \<le> len - NMAX \<longrightarrow> unat a' < 65521 \<and> unat s' < 65521)"
      using "1.IH" [OF True du [symmetric] prod.collapse] a1b s1b len'
      unfolding k_def a1_def s1_def by simp
    then obtain a' s' where
      r: "nmax_while (len - NMAX) (drop 5552 buf) (a1, s1) = ((len - NMAX) mod NMAX, drop k (drop 5552 buf), (a', s'))"
      and ba: "unat a' \<le> 65535" and bs: "unat s' \<le> 65535"
      and ca: "unat a' mod 65521 = fst (exact_sums (unat a1, unat s1) (take k (drop 5552 buf))) mod 65521"
      and cs: "unat s' mod 65521 = snd (exact_sums (unat a1, unat s1) (take k (drop 5552 buf))) mod 65521"
      and red: "NMAX \<le> len - NMAX \<longrightarrow> unat a' < 65521 \<and> unat s' < 65521"
      by blast
    have m: "len mod NMAX = (len - NMAX) mod NMAX" using True by (simp add: le_mod_geq)
    have kk: "len - len mod NMAX = 5552 + k"
    proof -
      have "(len - NMAX) mod NMAX \<le> len - NMAX" by (rule mod_less_eq_dividend)
      then show ?thesis using True unfolding k_def m by (simp add: NMAX_def)
    qed
    have tk: "take (len - len mod NMAX) buf = blk @ take k (drop 5552 buf)"
      unfolding kk blk_def by (simp add: take_add)
    have dk: "drop (len - len mod NMAX) buf = drop k (drop 5552 buf)"
      unfolding kk by (simp add: add.commute)
    have cong: "fst (exact_sums (unat a1, unat s1) (take k (drop 5552 buf))) mod 65521
                  = fst (exact_sums E (take k (drop 5552 buf))) mod 65521
              \<and> snd (exact_sums (unat a1, unat s1) (take k (drop 5552 buf))) mod 65521
                  = snd (exact_sums E (take k (drop 5552 buf))) mod 65521"
      using exact_sums_cong [of "unat a1" 65521 "fst E" "unat s1" "snd E" "take k (drop 5552 buf)"]
      by (simp add: ua1 us1)
    have app: "exact_sums (unat (fst st), unat (snd st)) (take (len - len mod NMAX) buf) = exact_sums E (take k (drop 5552 buf))"
      unfolding tk exact_sums_append E_def st by simp
    have red': "unat a' < 65521 \<and> unat s' < 65521"
    proof (cases "NMAX \<le> len - NMAX")
      case True
      with red show ?thesis by simp
    next
      case False
      then have "nmax_while (len - NMAX) (drop 5552 buf) (a1, s1) = (len - NMAX, drop 5552 buf, (a1, s1))"
        by (subst nmax_while.simps) simp
      with r have "a' = a1" "s' = s1" by simp_all
      with a1b s1b show ?thesis by simp
    qed
    have le: "x mod 65521 \<le> 65535" for x :: nat
    proof -
      have "x mod 65521 < 65521" by simp
      then show ?thesis by linarith
    qed
    show ?thesis
      unfolding step r m [symmetric] dk app
      using ba bs ca cs cong red' le by simp
  qed
qed


lemma unat_byte_le: "unat (b :: Bytef) \<le> 255"
proof -
  have "unat b < 2 ^ LENGTH(8)" by (rule unsigned_less)
  then show ?thesis by simp
qed

lemma unat_ucast_byte: "unat (ucast (b :: Bytef) :: uLong) = unat b"
  by (simp add: unsigned_ucast_eq take_bit_nat_eq_self_iff unat_byte_le [THEN le_less_trans])

lemma lo16_le: "unat (a AND 0xffff :: uLong) \<le> 65535"
proof -
  have "unat a mod 65536 < 65536" by simp
  then show ?thesis unfolding lo16 by linarith
qed

lemma hi16_le: "unat (drop_bit 16 a AND 0xffff :: uLong) \<le> 65535"
proof -
  have "unat a < 2 ^ LENGTH(32)" by (rule unsigned_less)
  then have "unat a div 65536 < 65536" by simp
  then show ?thesis unfolding hi16 by linarith
qed

lemma unat_add_small:
  fixes x y :: uLong
  assumes "unat x + unat y < 4294967296"
  shows "unat (x + y) = unat x + unat y"
  using assms by (simp add: unat_add_lem [symmetric])

lemma adler32_z_one:
  assumes hi: "drop_bit 16 a AND 0xffff < BASE"
  shows "adler32_z a (Some [b]) 1 = Some (adler32_spec a [b])"
proof -
  define lo where "lo = a AND 0xffff"
  define hi where "hi = drop_bit 16 a AND 0xffff"
  define adler1 where "adler1 = lo + ucast b"
  define adler2 where "adler2 = (if adler1 \<ge> BASE then adler1 - BASE else adler1)"
  define sum1 where "sum1 = hi + adler2"
  define sum2 where "sum2 = (if sum1 \<ge> BASE then sum1 - BASE else sum1)"
  have ulo: "unat lo = unat a mod 65536" by (simp only: lo_def lo16)
  have uhi: "unat hi = unat a div 65536" by (simp only: hi_def hi16)
  have hib: "unat hi < 65521" using assms by (simp add: hi_def BASE_def word_less_nat_alt)
  have a1: "unat adler1 = unat lo + unat b"
    unfolding adler1_def using lo16_le [of a] unat_byte_le [of b]
    by (subst unat_add_small) (simp_all add: unat_ucast_byte lo_def)
  have a2: "unat adler2 = (unat lo + unat b) mod 65521"
    unfolding adler2_def using lo16_le [of a] unat_byte_le [of b]
    by (subst cond_sub_BASE) (simp_all add: a1 lo_def)
  have a2b: "unat adler2 < 65521" by (simp add: a2)
  have s1: "unat sum1 = unat hi + (unat lo + unat b) mod 65521"
    unfolding sum1_def using hib a2b
    by (subst unat_add_small) (simp_all add: a2)
  have s2: "unat sum2 = (unat hi + (unat lo + unat b)) mod 65521"
    unfolding sum2_def using hib a2b
    by (subst cond_sub_BASE) (simp_all add: s1 a2 mod_add_right_eq)
  have code: "adler32_z a (Some [b]) 1 = Some (adler2 OR push_bit 16 sum2)"
    by (simp add: adler32_z_def Let_def lo_def hi_def adler1_def adler2_def sum1_def sum2_def)
  have spec: "adler32_spec a [b] =
      push_bit 16 (word_of_nat ((unat hi + (unat lo + unat b)) mod 65521))
        OR word_of_nat ((unat lo + unat b) mod 65521)"
    by (simp add: adler32_spec_alt exact_DO1_def ulo uhi)
  show ?thesis
    unfolding code spec word_of_unat_eq [OF a2] word_of_unat_eq [OF s2]
    by (simp add: or.commute)
qed

lemma adler32_z_short:
  assumes "length bs < 16" "length bs \<noteq> 1"
  shows "adler32_z a (Some bs) (length bs) = Some (adler32_spec a bs)"
proof -
  define lo where "lo = a AND 0xffff"
  define hi where "hi = drop_bit 16 a AND 0xffff"
  define E where "E = exact_sums (unat lo, unat hi) bs"
  define A where "A = fst (foldl DO1 (lo, hi) bs)"
  define S where "S = snd (foldl DO1 (lo, hi) bs)"
  define A' where "A' = (if A \<ge> BASE then A - BASE else A)"
  have ulo: "unat lo = unat a mod 65536" by (simp only: lo_def lo16)
  have uhi: "unat hi = unat a div 65536" by (simp only: hi_def hi16)
  have lob: "unat lo \<le> 65535" and hib: "unat hi \<le> 65535"
    by (simp_all add: lo_def hi_def lo16_le hi16_le)
  have len: "length bs \<le> 5552" using assms by simp
  have uA: "unat A = fst E" and uS: "unat S = snd E"
    using word_sums [OF lob hib len] by (simp_all add: A_def S_def E_def)
  have "fst E \<le> unat lo + 255 * length bs"
    using exact_sums_bound [of "unat lo" "unat hi" bs] by (simp add: E_def)
  then have Ab: "unat A < 131042" using lob assms(1) by (simp add: uA)
  have uA': "unat A' = fst E mod 65521"
    unfolding A'_def using Ab by (subst cond_sub_BASE) (simp_all add: uA)
  have uS': "unat (S mod BASE) = snd E mod 65521"
    by (simp add: unat_mod_BASE uS)
  have code: "adler32_z a (Some bs) (length bs) = Some (A' OR push_bit 16 (S mod BASE))"
    using assms
    by (simp add: adler32_z_def Let_def bytes_loop_foldl A'_def A_def S_def lo_def hi_def split: prod.split)
  show ?thesis
    unfolding code adler32_spec_alt word_of_unat_eq [OF uA'] word_of_unat_eq [OF uS']
    by (simp add: or.commute E_def ulo uhi)
qed

lemma adler32_z_long:
  assumes "16 \<le> length bs"
  shows "adler32_z a (Some bs) (length bs) = Some (adler32_spec a bs)"
proof -
  define lo where "lo = a AND 0xffff"
  define hi where "hi = drop_bit 16 a AND 0xffff"
  define len where "len = length bs"
  define k where "k = len - len mod NMAX"
  define E where "E = exact_sums (unat lo, unat hi) bs"
  have ulo: "unat lo = unat a mod 65536" by (simp only: lo_def lo16)
  have uhi: "unat hi = unat a div 65536" by (simp only: hi_def hi16)
  have lob: "unat lo \<le> 65535" and hib: "unat hi \<le> 65535"
    by (simp_all add: lo_def hi_def lo16_le hi16_le)
  obtain a' s' where
    r: "nmax_while len bs (lo, hi) = (len mod NMAX, drop k bs, (a', s'))"
    and ba: "unat a' \<le> 65535" and bs: "unat s' \<le> 65535"
    and ca: "unat a' mod 65521 = fst (exact_sums (unat lo, unat hi) (take k bs)) mod 65521"
    and cs: "unat s' mod 65521 = snd (exact_sums (unat lo, unat hi) (take k bs)) mod 65521"
    and red: "NMAX \<le> len \<longrightarrow> unat a' < 65521 \<and> unat s' < 65521"
    using nmax_while_spec [of "(lo, hi)" len bs] lob hib unfolding k_def len_def
    by auto
  have kl: "k \<le> len" by (simp add: k_def)
  show ?thesis
  proof (cases "len mod NMAX = 0")
    case True
    then have k: "k = len" by (simp add: k_def)
    have "NMAX \<le> len"
    proof (rule ccontr)
      assume "\<not> NMAX \<le> len"
      then have "len mod NMAX = len" by simp
      with True assms show False by (simp add: len_def)
    qed
    with red have ra: "unat a' < 65521" and rs: "unat s' < 65521" by simp_all
    have ua: "unat a' = fst E mod 65521" using ca ra by (simp add: k E_def len_def)
    have us: "unat s' = snd E mod 65521" using cs rs by (simp add: k E_def len_def)
    have code: "adler32_z a (Some bs) (length bs) = Some (a' OR push_bit 16 s')"
      using assms True r
      by (simp add: adler32_z_def Let_def lo_def hi_def len_def)
    show ?thesis
      unfolding code adler32_spec_alt word_of_unat_eq [OF ua] word_of_unat_eq [OF us]
      by (simp add: or.commute E_def ulo uhi)
  next
    case False
    define rest where "rest = drop k bs"
    define A where "A = fst (foldl DO1 (a', s') rest)"
    define S where "S = snd (foldl DO1 (a', s') rest)"
    have lr: "length rest = len mod NMAX" using kl by (simp add: rest_def k_def len_def)
    have "len mod NMAX < NMAX" by (simp add: NMAX_def)
    then have lrb: "length rest \<le> 5552" by (simp add: lr NMAX_def)
    have uA: "unat A = fst (exact_sums (unat a', unat s') rest)"
      and uS: "unat S = snd (exact_sums (unat a', unat s') rest)"
      using word_sums [OF ba bs lrb] by (simp_all add: A_def S_def)
    have cong: "fst (exact_sums (unat a', unat s') rest) mod 65521
                  = fst (exact_sums (exact_sums (unat lo, unat hi) (take k bs)) rest) mod 65521
              \<and> snd (exact_sums (unat a', unat s') rest) mod 65521
                  = snd (exact_sums (exact_sums (unat lo, unat hi) (take k bs)) rest) mod 65521"
      using exact_sums_cong [of "unat a'" 65521 "fst (exact_sums (unat lo, unat hi) (take k bs))"
          "unat s'" "snd (exact_sums (unat lo, unat hi) (take k bs))" rest] ca cs
      by simp
    have "exact_sums (exact_sums (unat lo, unat hi) (take k bs)) rest = E"
      unfolding E_def rest_def exact_sums_append [symmetric] by simp
    with cong have uA': "unat (A mod BASE) = fst E mod 65521"
      and uS': "unat (S mod BASE) = snd E mod 65521"
      by (simp_all add: unat_mod_BASE uA uS)
    have tl: "(case do16_while (len mod NMAX) rest (a', s') of (l, b, st') \<Rightarrow> bytes_loop l b st')
                = foldl DO1 (a', s') rest"
      using tail_loops_foldl [of "len mod NMAX" rest "(a', s')"] lr by simp
    obtain l b st' where dw: "do16_while (len mod NMAX) rest (a', s') = (l, b, st')"
      by (cases "do16_while (len mod NMAX) rest (a', s')") auto
    have bl: "bytes_loop l b st' = (A, S)" using tl dw by (simp add: A_def S_def)
    have code: "adler32_z a (Some bs) (length bs) = Some (A mod BASE OR push_bit 16 (S mod BASE))"
      using assms False r [unfolded len_def rest_def [symmetric]] dw [unfolded len_def] bl
      by (simp add: adler32_z_def Let_def lo_def hi_def len_def)
    show ?thesis
      unfolding code adler32_spec_alt word_of_unat_eq [OF uA'] word_of_unat_eq [OF uS']
      by (simp add: or.commute E_def ulo uhi)
  qed
qed


lemma unat_of_nat_mod_BASE: "unat (word_of_nat (x mod 65521) :: uLong) = x mod 65521"
proof -
  have "x mod 65521 < 65521" by simp
  then have "x mod 65521 < 4294967296" by linarith
  then show ?thesis by (simp add: unat_of_nat)
qed

lemma adler32_spec_lo:
  "unat (adler32_spec a bs AND 0xffff) = fst (exact_sums (unat a mod 65536, unat a div 65536) bs) mod 65521"
proof -
  define x :: uLong where "x = word_of_nat (fst (exact_sums (unat a mod 65536, unat a div 65536) bs) mod 65521)"
  define y :: uLong where "y = word_of_nat (snd (exact_sums (unat a mod 65536, unat a div 65536) bs) mod 65521)"
  have ux: "unat x = fst (exact_sums (unat a mod 65536, unat a div 65536) bs) mod 65521"
    by (simp only: x_def unat_of_nat_mod_BASE)
  have "unat x < 65521" unfolding ux by simp
  then have xb: "unat x < 65536" by linarith
  have "adler32_spec a bs = x OR push_bit 16 y"
    by (simp only: adler32_spec_alt x_def y_def or.commute)
  then show ?thesis using join_lo [OF xb, of y] ux by simp
qed

lemma adler32_spec_hi:
  "unat (drop_bit 16 (adler32_spec a bs) AND 0xffff) = snd (exact_sums (unat a mod 65536, unat a div 65536) bs) mod 65521"
proof -
  define x :: uLong where "x = word_of_nat (fst (exact_sums (unat a mod 65536, unat a div 65536) bs) mod 65521)"
  define y :: uLong where "y = word_of_nat (snd (exact_sums (unat a mod 65536, unat a div 65536) bs) mod 65521)"
  have ux: "unat x = fst (exact_sums (unat a mod 65536, unat a div 65536) bs) mod 65521"
    by (simp only: x_def unat_of_nat_mod_BASE)
  have uy: "unat y = snd (exact_sums (unat a mod 65536, unat a div 65536) bs) mod 65521"
    by (simp only: y_def unat_of_nat_mod_BASE)
  have "unat x < 65521" unfolding ux by simp
  then have xb: "unat x < 65536" by linarith
  have "unat y < 65521" unfolding uy by simp
  then have yb: "unat y < 65536" by linarith
  have "adler32_spec a bs = x OR push_bit 16 y"
    by (simp only: adler32_spec_alt x_def y_def or.commute)
  then show ?thesis using join_hi [OF xb yb] uy by simp
qed

lemma adler32_spec_reduced: "drop_bit 16 (adler32_spec a bs) AND 0xffff < BASE"
proof -
  have "unat (drop_bit 16 (adler32_spec a bs) AND 0xffff) < 65521"
    unfolding adler32_spec_hi by simp
  then show ?thesis by (simp add: word_less_nat_alt BASE_def)
qed

lemma adler32_spec_append: "adler32_spec (adler32_spec a xs) ys = adler32_spec a (xs @ ys)"
proof -
  define E where "E = exact_sums (unat a mod 65536, unat a div 65536) xs"
  have lo: "unat (adler32_spec a xs) mod 65536 = fst E mod 65521"
    using adler32_spec_lo [of a xs] by (simp only: lo16 E_def)
  have hi: "unat (adler32_spec a xs) div 65536 = snd E mod 65521"
    using adler32_spec_hi [of a xs] by (simp only: hi16 E_def)
  have "fst (exact_sums (fst E mod 65521, snd E mod 65521) ys) mod 65521 = fst (exact_sums (fst E, snd E) ys) mod 65521
      \<and> snd (exact_sums (fst E mod 65521, snd E mod 65521) ys) mod 65521 = snd (exact_sums (fst E, snd E) ys) mod 65521"
    by (rule exact_sums_cong) simp_all
  then show ?thesis
    by (simp add: adler32_spec_alt [of "adler32_spec a xs"] adler32_spec_alt [of a "xs @ ys"] lo hi exact_sums_append E_def)
qed

lemma adler32_z_spec:
  assumes "length bs \<noteq> 1 \<or> drop_bit 16 a AND 0xffff < BASE"
  shows "adler32_z a (Some bs) (length bs) = Some (adler32_spec a bs)"
proof (cases "length bs = 1")
  case True
  then obtain b where bs: "bs = [b]" by (cases bs) auto
  with assms show ?thesis using adler32_z_one [of a b] by simp
next
  case False
  then show ?thesis using adler32_z_short [of bs a] adler32_z_long [of bs a]
    by (cases "length bs < 16") simp_all
qed

lemma adler32_chunks_spec:
  assumes "drop_bit 16 a AND 0xffff < BASE"
  shows "adler32_chunks a css = Some (if css = [] then a else adler32_spec a (concat css))"
  using assms
proof (induction css arbitrary: a)
  case Nil
  then show ?case by simp
next
  case (Cons c cs)
  have 1: "adler32_z a (Some c) (length c) = Some (adler32_spec a c)"
    using Cons.prems by (simp add: adler32_z_spec)
  have 2: "adler32_chunks (adler32_spec a c) cs = Some (if cs = [] then adler32_spec a c else adler32_spec (adler32_spec a c) (concat cs))"
    by (rule Cons.IH) (rule adler32_spec_reduced)
  show ?case by (simp add: 1 2 adler32_spec_append)
qed

lemma adler32_z_one_halves:
  "\<exists>x y. adler32_z a (Some [b]) 1 = Some (x OR push_bit 16 y)
         \<and> unat x = (unat a mod 65536 + unat b) mod 65521
         \<and> unat y = (if unat a div 65536 + (unat a mod 65536 + unat b) mod 65521 < 65521
                      then unat a div 65536 + (unat a mod 65536 + unat b) mod 65521
                      else unat a div 65536 + (unat a mod 65536 + unat b) mod 65521 - 65521)"
proof -
  define lo where "lo = a AND 0xffff"
  define hi where "hi = drop_bit 16 a AND 0xffff"
  define adler1 where "adler1 = lo + ucast b"
  define adler2 where "adler2 = (if adler1 \<ge> BASE then adler1 - BASE else adler1)"
  define sum1 where "sum1 = hi + adler2"
  define sum2 where "sum2 = (if sum1 \<ge> BASE then sum1 - BASE else sum1)"
  have ulo: "unat lo = unat a mod 65536" by (simp only: lo_def lo16)
  have uhi: "unat hi = unat a div 65536" by (simp only: hi_def hi16)
  have hib: "unat hi \<le> 65535" unfolding hi_def by (rule hi16_le)
  have a1: "unat adler1 = unat lo + unat b"
    unfolding adler1_def using lo16_le [of a] unat_byte_le [of b]
    by (subst unat_add_small) (simp_all add: unat_ucast_byte lo_def)
  have a2: "unat adler2 = (unat lo + unat b) mod 65521"
    unfolding adler2_def using lo16_le [of a] unat_byte_le [of b]
    by (subst cond_sub_BASE) (simp_all add: a1 lo_def)
  have a2b: "unat adler2 < 65521" by (simp add: a2)
  have s1: "unat sum1 = unat hi + (unat lo + unat b) mod 65521"
    unfolding sum1_def using hib a2b
    by (subst unat_add_small) (simp_all add: a2)
  have s2: "unat sum2 = (if unat sum1 < 65521 then unat sum1 else unat sum1 - 65521)"
  proof (cases "sum1 \<ge> BASE")
    case True
    then have "65521 \<le> unat sum1" by (simp add: BASE_def word_le_nat_alt)
    moreover have "unat (sum1 - BASE) = unat sum1 - 65521" using True by (simp add: unat_sub BASE_def)
    ultimately show ?thesis using True by (simp add: sum2_def)
  next
    case False
    then have "unat sum1 < 65521" by (simp add: BASE_def word_le_nat_alt)
    then show ?thesis using False by (simp add: sum2_def)
  qed
  have code: "adler32_z a (Some [b]) 1 = Some (adler2 OR push_bit 16 sum2)"
    by (simp add: adler32_z_def Let_def lo_def hi_def adler1_def adler2_def sum1_def sum2_def)
  show ?thesis
    using code a2 s2 unfolding s1 ulo uhi by blast
qed

lemma adler32_z_one_iff:
  "adler32_z a (Some [b]) 1 = Some (adler32_spec a [b])
     \<longleftrightarrow> unat a div 65536 + (unat a mod 65536 + unat b) mod 65521 < 131042"
proof -
  define h where "h = unat a div 65536"
  define t where "t = (unat a mod 65536 + unat b) mod 65521"
  obtain x y where code: "adler32_z a (Some [b]) 1 = Some (x OR push_bit 16 y)"
    and ux: "unat x = t"
    and uy: "unat y = (if h + t < 65521 then h + t else h + t - 65521)"
    using adler32_z_one_halves [of a b] unfolding h_def t_def by blast
  have tb: "t < 65521" by (simp add: t_def)
  have "unat a < 2 ^ LENGTH(32)" by (rule unsigned_less)
  then have hb: "h \<le> 65535" unfolding h_def by simp
  have xb: "unat x < 65536" using ux tb by simp
  have yb: "unat y < 65536" using uy tb hb by (simp split: if_splits)
  have hi_code: "unat (drop_bit 16 (x OR push_bit 16 y) AND 0xffff) = unat y"
    using join_hi [OF xb yb] by simp
  have lo_code: "unat ((x OR push_bit 16 y) AND 0xffff) = unat x"
    using join_lo [OF xb, of y] by simp
  have hi_spec: "unat (drop_bit 16 (adler32_spec a [b]) AND 0xffff) = (h + t') mod 65521"
    if "t' = unat a mod 65536 + unat b" for t'
    unfolding adler32_spec_hi using that by (simp add: exact_DO1_def h_def)
  have hi_spec': "unat (drop_bit 16 (adler32_spec a [b]) AND 0xffff) = (h + t) mod 65521"
    using hi_spec [OF refl] by (simp add: t_def mod_add_right_eq)
  have lo_spec: "unat (adler32_spec a [b] AND 0xffff) = t"
    unfolding adler32_spec_lo by (simp add: exact_DO1_def t_def)
  show ?thesis
  proof (cases "h + t < 131042")
    case True
    have "unat y = (h + t) mod 65521"
    proof (cases "h + t < 65521")
      case True
      then show ?thesis using uy by simp
    next
      case False
      then have "(h + t) mod 65521 = (h + t - 65521) mod 65521" by (simp add: le_mod_geq)
      also have "\<dots> = h + t - 65521" using True by simp
      finally show ?thesis using uy False by simp
    qed
    then have y: "y = word_of_nat ((h + t) mod 65521)" by (rule word_of_unat_eq)
    have x: "x = word_of_nat t" using ux by (rule word_of_unat_eq)
    have "adler32_spec a [b] = push_bit 16 (word_of_nat ((h + t) mod 65521)) OR word_of_nat t"
      unfolding adler32_spec_alt by (simp add: exact_DO1_def h_def t_def mod_add_right_eq)
    then have "adler32_z a (Some [b]) 1 = Some (adler32_spec a [b])"
      unfolding code x y by (simp add: or.commute)
    with True show ?thesis by (simp add: h_def t_def)
  next
    case False
    then have "unat y = h + t - 65521" using uy by simp
    with False have "65521 \<le> unat y" by simp
    moreover have "(h + t) mod 65521 < 65521" by simp
    ultimately have ne: "unat (drop_bit 16 (x OR push_bit 16 y) AND 0xffff)
        \<noteq> unat (drop_bit 16 (adler32_spec a [b]) AND 0xffff)"
      unfolding hi_code hi_spec' by linarith
    have "x OR push_bit 16 y \<noteq> adler32_spec a [b]"
    proof
      assume "x OR push_bit 16 y = adler32_spec a [b]"
      then have "unat (drop_bit 16 (x OR push_bit 16 y) AND 0xffff)
          = unat (drop_bit 16 (adler32_spec a [b]) AND 0xffff)"
        by (simp only:)
      with ne show False by (rule notE)
    qed
    then have "adler32_z a (Some [b]) 1 \<noteq> Some (adler32_spec a [b])"
      unfolding code by (simp only: option.inject not_False_eq_True)
    with False show ?thesis by (simp only: h_def t_def)
  qed
qed

lemma adler32_z_spec_iff:
  "adler32_z a (Some bs) (length bs) = Some (adler32_spec a bs) \<longleftrightarrow> adler32_proviso a bs"
proof (cases "length bs = 1")
  case True
  then obtain b where bs: "bs = [b]" by (cases bs) auto
  show ?thesis using adler32_z_one_iff [of a b] by (simp add: bs adler32_proviso_def)
next
  case False
  then have "adler32_z a (Some bs) (length bs) = Some (adler32_spec a bs)"
    by (simp add: adler32_z_spec)
  with False show ?thesis by (simp add: adler32_proviso_def)
qed

lemma reduced_proviso:
  assumes "drop_bit 16 a AND 0xffff < BASE"
  shows "adler32_proviso a bs"
proof -
  have "unat (drop_bit 16 a AND 0xffff) < 65521"
    using assms by (simp add: word_less_nat_alt BASE_def)
  then have h: "unat a div 65536 < 65521" by (simp only: hi16)
  have "(unat a mod 65536 + unat (hd bs)) mod 65521 < 65521" by simp
  with h show ?thesis unfolding adler32_proviso_def by linarith
qed

lemma adler32_spec_lo_reduced: "adler32_spec a bs AND 0xffff < BASE"
proof -
  have "unat (adler32_spec a bs AND 0xffff) < 65521"
    unfolding adler32_spec_lo by simp
  then show ?thesis by (simp add: word_less_nat_alt BASE_def)
qed


lemma adler32_chunks_proviso:
  assumes "adler32_proviso a c"
  shows "adler32_chunks a (c # cs) = Some (adler32_spec a (concat (c # cs)))"
proof -
  have 1: "adler32_z a (Some c) (length c) = Some (adler32_spec a c)"
    using assms by (simp only: adler32_z_spec_iff)
  have 2: "adler32_chunks (adler32_spec a c) cs = Some (if cs = [] then adler32_spec a c else adler32_spec (adler32_spec a c) (concat cs))"
    by (rule adler32_chunks_spec) (rule adler32_spec_reduced)
  show ?thesis by (simp add: 1 2 adler32_spec_append)
qed

text \<open>
  Claim C1, as amended. A call of \<^verbatim>\<open>adler32_z\<close> returns the checksum of the reference
  definition exactly when the proviso holds: the length is not 1, or \<open>s2 + ((s1 + b) mod 65521)\<close>
  is below twice 65521. \<^verbatim>\<open>adler32\<close> does the same for lengths that fit its \<^verbatim>\<open>uInt\<close>. The
  proviso holds whenever the high half of the accumulator is below 65521, and both halves of
  the reference checksum are below 65521. When the first chunk and the whole buffer meet the
  proviso, updating chunk by chunk gives the result of one call on the whole buffer.
\<close>

theorem adler32_reference:
  "(adler32_z a (Some bs) (length bs) = Some (adler32_spec a bs) \<longleftrightarrow> adler32_proviso a bs)
   \<and> (adler32_proviso a bs \<and> length bs < 2 ^ 32 \<longrightarrow>
        adler32 a (Some bs) (word_of_nat (length bs)) = Some (adler32_spec a bs))
   \<and> (drop_bit 16 a AND 0xffff < BASE \<longrightarrow> adler32_proviso a bs)
   \<and> adler32_spec a bs AND 0xffff < BASE
   \<and> drop_bit 16 (adler32_spec a bs) AND 0xffff < BASE
   \<and> (adler32_proviso a c \<and> adler32_proviso a (concat (c # cs)) \<longrightarrow>
        adler32_chunks a (c # cs) = adler32_z a (Some (concat (c # cs))) (length (concat (c # cs))))"
proof (intro conjI impI)
  show "adler32_z a (Some bs) (length bs) = Some (adler32_spec a bs) \<longleftrightarrow> adler32_proviso a bs"
    by (rule adler32_z_spec_iff)
  show "adler32_spec a bs AND 0xffff < BASE" by (rule adler32_spec_lo_reduced)
  show "drop_bit 16 (adler32_spec a bs) AND 0xffff < BASE" by (rule adler32_spec_reduced)
next
  assume "drop_bit 16 a AND 0xffff < BASE"
  then show "adler32_proviso a bs" by (rule reduced_proviso)
next
  assume h: "adler32_proviso a bs \<and> length bs < 2 ^ 32"
  then have "unat (word_of_nat (length bs) :: 32 word) = length bs"
    by (simp add: unat_of_nat)
  moreover have "adler32_z a (Some bs) (length bs) = Some (adler32_spec a bs)"
    using h by (simp only: adler32_z_spec_iff)
  ultimately show "adler32 a (Some bs) (word_of_nat (length bs)) = Some (adler32_spec a bs)"
    by (simp add: adler32_def)
next
  assume h: "adler32_proviso a c \<and> adler32_proviso a (concat (c # cs))"
  then have 1: "adler32_chunks a (c # cs) = Some (adler32_spec a (concat (c # cs)))"
    by (intro adler32_chunks_proviso) simp
  from h have 2: "adler32_z a (Some (concat (c # cs))) (length (concat (c # cs))) = Some (adler32_spec a (concat (c # cs)))"
    by (simp only: adler32_z_spec_iff)
  show "adler32_chunks a (c # cs) = adler32_z a (Some (concat (c # cs))) (length (concat (c # cs)))"
    unfolding 1 2 ..
qed

text \<open>The theorem at the bytes 72, 105, whole and in two chunks of one byte.\<close>

theorem adler32_reference_witness:
  "adler32_proviso 1 [72, 105] \<and> length [72 :: Bytef, 105] < 2 ^ 32
   \<and> adler32_z 1 (Some [72, 105]) (length [72 :: Bytef, 105]) = Some (adler32_spec 1 [72, 105])
   \<and> adler32 1 (Some [72, 105]) (word_of_nat (length [72 :: Bytef, 105])) = Some (adler32_spec 1 [72, 105])
   \<and> drop_bit 16 (1 :: uLong) AND 0xffff < BASE
   \<and> adler32_proviso 1 [72] \<and> adler32_proviso 1 (concat ([72] # [[105]]))
   \<and> adler32_chunks 1 ([72] # [[105]]) = adler32_z 1 (Some (concat ([72] # [[105 :: Bytef]]))) (length (concat ([72] # [[105 :: Bytef]])))"
proof -
  have p1: "adler32_proviso 1 [72, 105]" by (simp add: adler32_proviso_def)
  have p2: "adler32_proviso 1 [72]" by (simp add: adler32_proviso_def)
  have p3: "adler32_proviso 1 (concat ([72] # [[105]]))" by (simp add: adler32_proviso_def)
  have l: "length [72 :: Bytef, 105] < 2 ^ 32" by simp
  have r: "drop_bit 16 (1 :: uLong) AND 0xffff < BASE" by (simp add: BASE_def)
  show ?thesis
    using p1 p2 p3 l r adler32_reference [of 1 "[72, 105]" "[72]" "[[105]]"] by blast
qed

text \<open>
  Claim C1 as stated fails: the one-byte fast path subtracts \<^verbatim>\<open>BASE\<close> at most once from
  \<^verbatim>\<open>sum2\<close>, so from the accumulator \<open>0xFFFFFFF0\<close> (high half 65535) and the single byte 0
  it returns a high half of 65534 where the reference definition gives 13.
\<close>

theorem adler32_reference_counterexample:
  "adler32_z 0xFFFFFFF0 (Some [0]) (length [0 :: Bytef]) \<noteq> Some (adler32_spec 0xFFFFFFF0 [0])"
  by (simp add: adler32_z_def adler32_spec_def BASE_def)


text \<open>
  Claim C10. With a \<^verbatim>\<open>Z_NULL\<close> buffer and a length other than 1, \<^verbatim>\<open>adler32_z\<close> and
  \<^verbatim>\<open>adler32\<close> return 1 whatever the running checksum and the length are. With length 1 the
  fast path reads \<^verbatim>\<open>buf[0]\<close> before the buffer is tested, which has no defined result.
\<close>

theorem adler32_null_buffer:
  "(len \<noteq> 1 \<longrightarrow> adler32_z a None len = Some 1)
   \<and> (wlen \<noteq> 1 \<longrightarrow> adler32 a None wlen = Some 1)
   \<and> adler32_z a None 1 = None"
proof (intro conjI impI)
  show "adler32_z a None 1 = None" by (simp add: adler32_z_def)
  assume "len \<noteq> 1"
  then show "adler32_z a None len = Some 1" by (simp add: adler32_z_def)
next
  assume "wlen \<noteq> 1"
  then have "unat wlen \<noteq> 1" by (metis unat_1 word_unat_eq_iff)
  then show "adler32 a None wlen = Some 1" by (simp add: adler32_def adler32_z_def)
qed

text \<open>The theorem at length 7.\<close>

theorem adler32_null_buffer_witness:
  "adler32_z 0x12345678 None 7 = Some 1 \<and> adler32 0x12345678 None 7 = Some 1
   \<and> adler32_z 0x12345678 None 1 = None"
  using adler32_null_buffer [of 7 "0x12345678" 7] by simp

lemma nmax_while_split:
  "j * NMAX \<le> len \<Longrightarrow> len \<le> length buf \<Longrightarrow>
   nmax_while len buf st =
     nmax_while (len - j * NMAX) (drop (j * NMAX) buf) (snd (snd (nmax_while (j * NMAX) buf st)))"
proof (induction j arbitrary: len buf st)
  case 0
  have "nmax_while 0 buf st = (0, buf, st)" by (subst nmax_while.simps) (simp add: NMAX_def)
  then show ?case by simp
next
  case (Suc j)
  obtain adler sum2 where st: "st = (adler, sum2)" by (cases st)
  define st1 where "st1 = (fst (foldl DO1 st (take 5552 buf)) mod BASE, snd (foldl DO1 st (take 5552 buf)) mod BASE)"
  have ge: "NMAX \<le> len" using Suc.prems(1) by simp
  have ge': "NMAX \<le> Suc j * NMAX" by simp
  have du: "do16_until (NMAX div 16) buf st = (drop 5552 buf, foldl DO1 st (take 5552 buf))"
    using do16_until_eq [of 347 buf st] by (simp add: NMAX_def)
  have s1: "nmax_while len buf st = nmax_while (len - NMAX) (drop 5552 buf) st1"
    using ge by (subst nmax_while.simps) (simp add: du st1_def split: prod.split)
  have s2: "nmax_while (Suc j * NMAX) buf st = nmax_while (j * NMAX) (drop 5552 buf) st1"
    using ge' by (subst nmax_while.simps) (simp add: du st1_def split: prod.split)
  have le: "j * NMAX \<le> len - NMAX" using Suc.prems(1) by simp
  have ll: "len - NMAX \<le> length (drop 5552 buf)" using Suc.prems(2) ge by (simp add: NMAX_def)
  have "nmax_while (len - NMAX) (drop 5552 buf) st1 =
      nmax_while (len - NMAX - j * NMAX) (drop (j * NMAX) (drop 5552 buf))
        (snd (snd (nmax_while (j * NMAX) (drop 5552 buf) st1)))"
    by (rule Suc.IH [OF le ll])
  moreover have "len - NMAX - j * NMAX = len - Suc j * NMAX" by simp
  moreover have "drop (j * NMAX) (drop 5552 buf) = drop (Suc j * NMAX) buf"
    by (simp add: NMAX_def add.commute)
  ultimately show ?case unfolding s1 s2 by simp
qed

lemma nmax_while_block_state:
  fixes st :: "uLong \<times> uLong"
  assumes "unat (fst st) \<le> 65535" "unat (snd st) \<le> 65535" "j * NMAX \<le> length buf"
  shows "unat (fst (snd (snd (nmax_while (j * NMAX) buf st)))) \<le> 65535"
    and "unat (snd (snd (snd (nmax_while (j * NMAX) buf st)))) \<le> 65535"
  using nmax_while_spec [OF assms] by auto


text \<open>
  Claim C9. \<^verbatim>\<open>adler32_z\<close> enters its loops with the two 16-bit halves of the accumulator.
  For every length within the buffer: the loop over blocks of \<^verbatim>\<open>NMAX\<close> = 5552 bytes consumes
  the full blocks and leaves sums congruent modulo 65521 to the exact sums, reduced once a
  block was processed; after any number \<open>j\<close> of blocks the loop is in the state the first \<open>j\<close>
  blocks leave, and from that state the exact sums over every prefix (of at most \<^verbatim>\<open>NMAX\<close>
  bytes) of what follows stay at or below \<open>2^32 - 1\<close> and are the 32-bit sums of the code. So
  \<^verbatim>\<open>adler32_z\<close> on 16 bytes or more returns the checksum of the exact-integer definition, for
  every accumulator. The bound of the comment on \<^verbatim>\<open>NMAX\<close> holds at 5552.
\<close>

theorem nmax_blocks_no_overflow:
  assumes "len \<le> length buf"
  shows
    "(\<exists>a' s'. nmax_while len buf (a AND 0xffff, drop_bit 16 a AND 0xffff)
                = (len mod NMAX, drop (len - len mod NMAX) buf, (a', s'))
        \<and> unat a' mod 65521
            = fst (exact_sums (unat a mod 65536, unat a div 65536) (take (len - len mod NMAX) buf)) mod 65521
        \<and> unat s' mod 65521
            = snd (exact_sums (unat a mod 65536, unat a div 65536) (take (len - len mod NMAX) buf)) mod 65521
        \<and> (NMAX \<le> len \<longrightarrow> unat a' < 65521 \<and> unat s' < 65521))
     \<and> (\<forall>j k. j * NMAX + k \<le> len \<and> k \<le> NMAX \<longrightarrow>
           nmax_while len buf (a AND 0xffff, drop_bit 16 a AND 0xffff)
             = nmax_while (len - j * NMAX) (drop (j * NMAX) buf)
                 (snd (snd (nmax_while (j * NMAX) buf (a AND 0xffff, drop_bit 16 a AND 0xffff))))
         \<and> (let st = snd (snd (nmax_while (j * NMAX) buf (a AND 0xffff, drop_bit 16 a AND 0xffff)));
                 blk = take k (drop (j * NMAX) buf);
                 E = exact_sums (unat (fst st), unat (snd st)) blk
             in fst E \<le> 2 ^ 32 - 1 \<and> snd E \<le> 2 ^ 32 - 1
                \<and> unat (fst (foldl DO1 st blk)) = fst E
                \<and> unat (snd (foldl DO1 st blk)) = snd E))
     \<and> (16 \<le> len \<and> len = length buf \<longrightarrow> adler32_z a (Some buf) len = Some (adler32_spec a buf))
     \<and> 255 * NMAX * (NMAX + 1) div 2 + (NMAX + 1) * (unat BASE - 1) \<le> 2 ^ 32 - 1"
proof (intro conjI allI impI)
  define st0 where "st0 = (a AND 0xffff, drop_bit 16 a AND 0xffff)"
  have lo: "unat (fst st0) \<le> 65535" and hi: "unat (snd st0) \<le> 65535"
    by (simp_all add: st0_def lo16_le hi16_le)
  have ulo: "unat (fst st0) = unat a mod 65536" by (simp only: st0_def fst_conv lo16)
  have uhi: "unat (snd st0) = unat a div 65536" by (simp only: st0_def snd_conv hi16)
  show "\<exists>a' s'. nmax_while len buf (a AND 0xffff, drop_bit 16 a AND 0xffff)
                = (len mod NMAX, drop (len - len mod NMAX) buf, (a', s'))
        \<and> unat a' mod 65521
            = fst (exact_sums (unat a mod 65536, unat a div 65536) (take (len - len mod NMAX) buf)) mod 65521
        \<and> unat s' mod 65521
            = snd (exact_sums (unat a mod 65536, unat a div 65536) (take (len - len mod NMAX) buf)) mod 65521
        \<and> (NMAX \<le> len \<longrightarrow> unat a' < 65521 \<and> unat s' < 65521)"
  proof -
    from nmax_while_spec [OF lo hi assms] obtain a' s' where
      r: "nmax_while len buf st0 = (len mod NMAX, drop (len - len mod NMAX) buf, (a', s'))"
      and ca: "unat a' mod 65521
            = fst (exact_sums (unat (fst st0), unat (snd st0)) (take (len - len mod NMAX) buf)) mod 65521"
      and cs: "unat s' mod 65521
            = snd (exact_sums (unat (fst st0), unat (snd st0)) (take (len - len mod NMAX) buf)) mod 65521"
      and red: "NMAX \<le> len \<longrightarrow> unat a' < 65521 \<and> unat s' < 65521"
      by blast
    show ?thesis
      using r [unfolded st0_def] ca [unfolded ulo uhi] cs [unfolded ulo uhi] red by blast
  qed
  show "255 * NMAX * (NMAX + 1) div 2 + (NMAX + 1) * (unat BASE - 1) \<le> 2 ^ 32 - 1"
    by (simp add: NMAX_def BASE_def)
  {
    fix j k assume jk: "j * NMAX + k \<le> len \<and> k \<le> NMAX"
    then have jl: "j * NMAX \<le> len" and jb: "j * NMAX \<le> length buf" using assms by simp_all
    show "nmax_while len buf (a AND 0xffff, drop_bit 16 a AND 0xffff)
             = nmax_while (len - j * NMAX) (drop (j * NMAX) buf)
                 (snd (snd (nmax_while (j * NMAX) buf (a AND 0xffff, drop_bit 16 a AND 0xffff))))"
      by (rule nmax_while_split [OF jl assms])
    define st where "st = snd (snd (nmax_while (j * NMAX) buf st0))"
    define blk where "blk = take k (drop (j * NMAX) buf)"
    have b1: "unat (fst st) \<le> 65535" and b2: "unat (snd st) \<le> 65535"
      using nmax_while_block_state [OF lo hi jb] by (simp_all add: st_def)
    have "length blk \<le> k" by (simp add: blk_def)
    then have l: "length blk \<le> 5552" using jk by (simp add: NMAX_def)
    have "fst (exact_sums (unat (fst st), unat (snd st)) blk) \<le> 2 ^ 32 - 1"
      using exact_sums_no_overflow(1) [OF b1 b2 l] by simp
    moreover have "snd (exact_sums (unat (fst st), unat (snd st)) blk) \<le> 2 ^ 32 - 1"
      using exact_sums_no_overflow(2) [OF b1 b2 l] by simp
    moreover have "unat (fst (foldl DO1 st blk)) = fst (exact_sums (unat (fst st), unat (snd st)) blk)"
      using word_sums(1) [OF b1 b2 l] by simp
    moreover have "unat (snd (foldl DO1 st blk)) = snd (exact_sums (unat (fst st), unat (snd st)) blk)"
      using word_sums(2) [OF b1 b2 l] by simp
    ultimately show "let st = snd (snd (nmax_while (j * NMAX) buf (a AND 0xffff, drop_bit 16 a AND 0xffff)));
                 blk = take k (drop (j * NMAX) buf);
                 E = exact_sums (unat (fst st), unat (snd st)) blk
             in fst E \<le> 2 ^ 32 - 1 \<and> snd E \<le> 2 ^ 32 - 1
                \<and> unat (fst (foldl DO1 st blk)) = fst E
                \<and> unat (snd (foldl DO1 st blk)) = snd E"
      unfolding Let_def st_def [symmetric, unfolded st0_def] blk_def [symmetric] by blast
  }
  assume "16 \<le> len \<and> len = length buf"
  then show "adler32_z a (Some buf) len = Some (adler32_spec a buf)"
    using adler32_z_long [of buf a] by simp
qed


text \<open>
  The theorem at 5568 bytes 255 from the accumulator \<open>0xFFFFFFFF\<close>: one full block and 16
  bytes after it.
\<close>

theorem nmax_blocks_no_overflow_witness:
  "5568 \<le> length (replicate 5568 (255 :: Bytef))
   \<and> 1 * NMAX + 16 \<le> (5568 :: nat) \<and> 16 \<le> NMAX
   \<and> 16 \<le> (5568 :: nat) \<and> 5568 = length (replicate 5568 (255 :: Bytef))
   \<and> adler32_z 0xFFFFFFFF (Some (replicate 5568 255)) 5568
       = Some (adler32_spec 0xFFFFFFFF (replicate 5568 255))
   \<and> nmax_while 5568 (replicate 5568 255) (0xFFFFFFFF AND 0xffff, drop_bit 16 0xFFFFFFFF AND 0xffff)
       = nmax_while (5568 - 1 * NMAX) (drop (1 * NMAX) (replicate 5568 255))
           (snd (snd (nmax_while (1 * NMAX) (replicate 5568 255)
                        (0xFFFFFFFF AND 0xffff, drop_bit 16 0xFFFFFFFF AND 0xffff))))"
proof -
  have h1: "5568 \<le> length (replicate 5568 (255 :: Bytef))" by simp
  have h2: "1 * NMAX + 16 \<le> (5568 :: nat) \<and> 16 \<le> NMAX" by (simp add: NMAX_def)
  have h3: "16 \<le> (5568 :: nat) \<and> 5568 = length (replicate 5568 (255 :: Bytef))" by simp
  note th = nmax_blocks_no_overflow [OF h1, of "0xFFFFFFFF"]
  note b = th [THEN conjunct2, THEN conjunct1, rule_format, OF h2, THEN conjunct1]
  note d = th [THEN conjunct2, THEN conjunct2, THEN conjunct1, rule_format, OF h3]
  show ?thesis using h1 h2 h3 b d by blast
qed

lemma mod_add_cancel_nat:
  assumes "(a + c) mod m = (b + c) mod (m::nat)"
  shows "a mod m = b mod m"
proof -
  have "int ((a + c) mod m) = int ((b + c) mod m)" using assms by simp
  then have "(int a + int c) mod int m = (int b + int c) mod int m" by (simp add: zmod_int)
  then have "(int a + int c - int c) mod int m = (int b + int c - int c) mod int m"
    by (rule mod_diff_cong) simp
  then have "int (a mod m) = int (b mod m)" by (simp add: zmod_int)
  then show ?thesis by simp
qed

lemma exact_sums_shift:
  "exact_sums (s1 + d, s2 + e) bs =
     (fst (exact_sums (s1, s2) bs) + d, snd (exact_sums (s1, s2) bs) + e + length bs * d)"
proof (induction bs arbitrary: s1 s2 e)
  case Nil
  then show ?case by simp
next
  case (Cons b bs)
  have "exact_sums (s1 + d, s2 + e) (b # bs) = exact_sums ((s1 + unat b) + d, (s2 + (s1 + unat b)) + (e + d)) bs"
    by (simp add: exact_DO1_def add_ac)
  also have "\<dots> = (fst (exact_sums (s1 + unat b, s2 + (s1 + unat b)) bs) + d,
                     snd (exact_sums (s1 + unat b, s2 + (s1 + unat b)) bs) + (e + d) + length bs * d)"
    by (rule Cons.IH)
  finally show ?case by (simp add: exact_DO1_def add_ac)
qed

lemma exact_sums_fst_init: "fst (exact_sums (s1, s2) bs) = s1 + (\<Sum>b\<leftarrow>bs. unat b)"
  by (simp add: exact_sums_closed)

lemma exact_sums_concat_init:
  "exact_sums (1, 0) (A @ B) =
     (fst (exact_sums (1, 0) B) + (\<Sum>b\<leftarrow>A. unat b),
      snd (exact_sums (1, 0) B) + snd (exact_sums (1, 0) A) + length B * (\<Sum>b\<leftarrow>A. unat b))"
proof -
  have "exact_sums (1, 0) A = (1 + (\<Sum>b\<leftarrow>A. unat b), 0 + snd (exact_sums (1, 0) A))"
    using exact_sums_fst_init [of 1 0 A] by (cases "exact_sums (1, 0) A") simp
  then show ?thesis
    unfolding exact_sums_append using exact_sums_shift [of 1 "\<Sum>b\<leftarrow>A. unat b" 0 "snd (exact_sums (1, 0) A)" B]
    by simp
qed

lemma combine_sum1:
  fixes d f :: nat
  shows "((1 + d) mod 65521 + f mod 65521 + 65521 - 1) mod 65521 = (f + d) mod 65521"
proof (rule mod_add_cancel_nat [where c = 1])
  have "((1 + d) mod 65521 + f mod 65521 + 65521 - 1 + 1) mod 65521 = ((1 + d) mod 65521 + f mod 65521 + 65521) mod 65521"
    by simp
  also have "\<dots> = ((1 + d) mod 65521 + f mod 65521) mod 65521" by simp
  also have "\<dots> = ((1 + d) + f) mod 65521" by (simp add: mod_add_eq)
  also have "\<dots> = (f + d + 1) mod 65521" by (simp add: add_ac)
  finally show "((1 + d) mod 65521 + f mod 65521 + 65521 - 1 + 1) mod 65521 = (f + d + 1) mod 65521" .
qed

lemma mod_add3: "(a mod m + b mod m + c mod m) mod m = (a + b + c) mod (m::nat)"
  by (intro mod_add_cong) simp_all

lemma combine_sum2:
  fixes d n g e :: nat
  shows "((n mod 65521 * ((1 + d) mod 65521)) mod 65521 + e mod 65521 + g mod 65521 + 65521 - n mod 65521) mod 65521
           = (g + e + n * d) mod 65521"
proof (rule mod_add_cancel_nat [where c = "n mod 65521"])
  have r: "n mod 65521 \<le> 65521" by (rule less_imp_le) simp
  have "((n mod 65521 * ((1 + d) mod 65521)) mod 65521 + e mod 65521 + g mod 65521 + 65521 - n mod 65521 + n mod 65521) mod 65521
      = ((n mod 65521 * ((1 + d) mod 65521)) mod 65521 + e mod 65521 + g mod 65521 + 65521) mod 65521"
    using r by simp
  also have "\<dots> = ((n mod 65521 * ((1 + d) mod 65521)) mod 65521 + e mod 65521 + g mod 65521) mod 65521"
    by simp
  also have "\<dots> = ((n * (1 + d)) mod 65521 + e mod 65521 + g mod 65521) mod 65521"
    by (simp add: mod_mult_eq)
  also have "\<dots> = (n * (1 + d) + e + g) mod 65521"
    by (rule mod_add3)
  also have "\<dots> = (g + e + n * d + n) mod 65521"
    by (simp add: algebra_simps)
  also have "\<dots> = (g + e + n * d + n mod 65521) mod 65521"
    by (simp add: mod_add_right_eq)
  finally show "((n mod 65521 * ((1 + d) mod 65521)) mod 65521 + e mod 65521 + g mod 65521 + 65521 - n mod 65521 + n mod 65521) mod 65521
      = (g + e + n * d + n mod 65521) mod 65521" .
qed


lemma cond_sub_BASE_twice:
  fixes x :: uLong
  assumes "unat x < 196563"
  shows "unat (let y = (if x \<ge> BASE then x - BASE else x) in if y \<ge> BASE then y - BASE else y) = unat x mod 65521"
proof -
  define y where "y = (if x \<ge> BASE then x - BASE else x)"
  have y: "unat y < 131042 \<and> unat y mod 65521 = unat x mod 65521"
  proof (cases "x \<ge> BASE")
    case True
    then have le: "65521 \<le> unat x" by (simp add: BASE_def word_le_nat_alt)
    have "unat (x - BASE) = unat x - 65521" using True by (simp add: unat_sub BASE_def)
    then show ?thesis using True le assms by (simp add: y_def le_mod_geq)
  next
    case False
    then have "unat x < 65521" by (simp add: BASE_def word_le_nat_alt)
    then show ?thesis using False by (simp add: y_def)
  qed
  have "unat (if y \<ge> BASE then y - BASE else y) = unat y mod 65521"
    using y by (intro cond_sub_BASE) simp
  then show ?thesis unfolding Let_def y_def [symmetric] using y by simp
qed

lemma cond_sub_BASE2:
  fixes x :: uLong
  assumes "unat x < 262084"
  shows "unat (let y = (if x \<ge> push_bit 1 BASE then x - push_bit 1 BASE else x) in if y \<ge> BASE then y - BASE else y)
           = unat x mod 65521"
proof -
  have pb: "push_bit 1 BASE = (131042 :: uLong)" by (simp add: BASE_def)
  define y where "y = (if x \<ge> 131042 then x - 131042 else x)"
  have y: "unat y < 131042 \<and> unat y mod 65521 = unat x mod 65521"
  proof (cases "x \<ge> 131042")
    case True
    then have le: "131042 \<le> unat x" by (simp add: word_le_nat_alt)
    have u: "unat (x - 131042) = unat x - 131042" using True by (simp add: unat_sub)
    have "unat x = (unat x - 131042) + 2 * 65521" using le by simp
    then have "unat x mod 65521 = ((unat x - 131042) + 2 * 65521) mod 65521" by simp
    also have "\<dots> = (unat x - 131042) mod 65521" by (rule mod_mult_self1)
    finally have "(unat x - 131042) mod 65521 = unat x mod 65521" by simp
    then show ?thesis using True le assms u by (simp add: y_def)
  next
    case False
    then have "unat x < 131042" by (simp add: word_le_nat_alt)
    then show ?thesis using False by (simp add: y_def)
  qed
  have "unat (if y \<ge> BASE then y - BASE else y) = unat y mod 65521"
    using y by (intro cond_sub_BASE) simp
  then show ?thesis unfolding pb Let_def y_def [symmetric] using y by simp
qed

lemma combine_word:
  fixes a1 a2 :: uLong and len2 :: "64 word"
  assumes x1: "unat (a1 AND 0xffff) = x1" "x1 < 65521"
    and x2: "unat (drop_bit 16 a1 AND 0xffff) = x2" "x2 < 65521"
    and y1: "unat (a2 AND 0xffff) = y1" "y1 < 65521"
    and y2: "unat (drop_bit 16 a2 AND 0xffff) = y2" "y2 < 65521"
    and len: "0 \<le> sint len2"
  shows "adler32_combine' a1 a2 len2 =
           word_of_nat ((x1 + y1 + 65521 - 1) mod 65521)
             OR push_bit 16 (word_of_nat (((unat len2 mod 65521 * x1) mod 65521 + x2 + y2 + 65521 - unat len2 mod 65521) mod 65521))"
proof -
  define r where "r = unat len2 mod 65521"
  define rem :: "32 word" where "rem = ucast (len2 mod 65521)"
  define sum1 where "sum1 = a1 AND 0xffff"
  define sum2a where "sum2a = (rem * sum1) mod BASE"
  define sum1b where "sum1b = sum1 + ((a2 AND 0xffff) + BASE - 1)"
  define sum2b where "sum2b = sum2a + ((drop_bit 16 a1 AND 0xffff) + (drop_bit 16 a2 AND 0xffff) + BASE - rem)"
  define sum1c where "sum1c = (let y = (if sum1b \<ge> BASE then sum1b - BASE else sum1b) in if y \<ge> BASE then y - BASE else y)"
  define sum2c where "sum2c = (let y = (if sum2b \<ge> push_bit 1 BASE then sum2b - push_bit 1 BASE else sum2b) in if y \<ge> BASE then y - BASE else y)"
  have rb: "r < 65521" by (simp add: r_def)
  have "unat (len2 mod 65521) = r" by (simp add: unat_mod r_def)
  then have urem: "unat rem = r"
    using rb by (simp add: rem_def unsigned_ucast_eq take_bit_nat_eq_self_iff)
  have us1: "unat sum1 = x1" by (simp add: sum1_def x1)
  have "r * x1 \<le> 65520 * 65520" using rb x1(2) by (intro mult_le_mono) simp_all
  then have prod: "r * x1 < 4294967296" by simp
  have "unat (rem * sum1) = r * x1"
    using prod by (simp add: unat_mult_lem [THEN iffD1] urem us1)
  then have us2a: "unat sum2a = (r * x1) mod 65521"
    by (simp add: sum2a_def unat_mod_BASE)
  have s2ab: "unat sum2a < 65521" by (simp add: us2a)
  have uy: "unat ((a2 AND 0xffff) + BASE - 1) = y1 + 65521 - 1"
  proof -
    have e: "(a2 AND 0xffff) + BASE - 1 = (a2 AND 0xffff) + 65520" by (simp add: BASE_def)
    have u: "unat ((a2 AND 0xffff) + 65520) = y1 + 65520"
      using y1 by (subst unat_add_small) simp_all
    show ?thesis unfolding e u by simp
  qed
  have us1b: "unat sum1b = x1 + y1 + 65521 - 1"
    unfolding sum1b_def using x1(2) y1(2)
    by (subst unat_add_small) (simp_all add: uy us1)
  have hh: "unat ((drop_bit 16 a1 AND 0xffff) + (drop_bit 16 a2 AND 0xffff) + BASE) = x2 + y2 + 65521"
  proof -
    have 1: "unat ((drop_bit 16 a1 AND 0xffff) + (drop_bit 16 a2 AND 0xffff)) = x2 + y2"
      using x2 y2 by (subst unat_add_small) simp_all
    show ?thesis using x2(2) y2(2)
      by (subst unat_add_small) (simp_all add: 1 BASE_def)
  qed
  have ut: "unat ((drop_bit 16 a1 AND 0xffff) + (drop_bit 16 a2 AND 0xffff) + BASE - rem) = x2 + y2 + 65521 - r"
  proof -
    have "rem \<le> (drop_bit 16 a1 AND 0xffff) + (drop_bit 16 a2 AND 0xffff) + BASE"
      using rb by (simp add: word_le_nat_alt hh urem)
    then show ?thesis by (simp add: unat_sub hh urem)
  qed
  have us2b: "unat sum2b = (r * x1) mod 65521 + x2 + y2 + 65521 - r"
    unfolding sum2b_def using s2ab x2(2) y2(2) rb
    by (subst unat_add_small) (simp_all add: ut us2a)
  have us1c: "unat sum1c = (x1 + y1 + 65521 - 1) mod 65521"
    unfolding sum1c_def using x1(2) y1(2)
    by (subst cond_sub_BASE_twice) (simp_all add: us1b)
  have us2c: "unat sum2c = ((r * x1) mod 65521 + x2 + y2 + 65521 - r) mod 65521"
    unfolding sum2c_def using s2ab [unfolded us2a] x2(2) y2(2)
    by (subst cond_sub_BASE2) (simp_all add: us2b)
  have "adler32_combine' a1 a2 len2 = sum1c OR push_bit 16 sum2c"
    using len
    by (simp add: adler32_combine'_def Let_def sum1c_def sum2c_def sum1b_def sum2b_def sum2a_def sum1_def rem_def)
  then show ?thesis
    unfolding word_of_unat_eq [OF us1c] word_of_unat_eq [OF us2c] r_def .
qed

lemma sint_of_nat_64:
  assumes "n < 2 ^ 63"
  shows "sint (word_of_nat n :: 64 word) = int n" "unat (word_of_nat n :: 64 word) = n"
proof -
  have "int n < 2 ^ 63" using assms by (metis of_nat_less_iff of_nat_numeral of_nat_power)
  then show "sint (word_of_nat n :: 64 word) = int n"
    by (simp add: signed_of_nat signed_take_bit_int_eq_self)
  have "n < 2 ^ 64" using assms by simp
  then show "unat (word_of_nat n :: 64 word) = n" by (simp add: unat_of_nat)
qed


lemma scast_of_nat_32:
  assumes "n < 2 ^ 31"
  shows "(scast (word_of_nat n :: 32 word) :: 64 word) = word_of_nat n"
proof -
  have "int n < 2 ^ 31" using assms by (metis of_nat_less_iff of_nat_numeral of_nat_power)
  then have "signed_take_bit 31 (int n) = int n"
    by (intro signed_take_bit_int_eq_self) simp_all
  then show ?thesis by (simp add: signed_of_nat)
qed

lemma adler32_combine_spec:
  assumes "length B < 2 ^ 63"
  shows "adler32_combine' (adler32_spec 1 A) (adler32_spec 1 B) (word_of_nat (length B)) = adler32_spec 1 (A @ B)"
proof -
  define EA where "EA = exact_sums (1, 0) A"
  define EB where "EB = exact_sums (1, 0) B"
  define d where "d = (\<Sum>b\<leftarrow>A. unat b)"
  define n where "n = length B"
  have one: "unat (1 :: uLong) mod 65536 = 1" "unat (1 :: uLong) div 65536 = 0" by simp_all
  have fEA: "fst EA = 1 + d" by (simp add: EA_def d_def exact_sums_fst_init)
  have x1: "unat (adler32_spec 1 A AND 0xffff) = (1 + d) mod 65521"
    by (simp only: adler32_spec_lo one EA_def [symmetric] fEA)
  have x2: "unat (drop_bit 16 (adler32_spec 1 A) AND 0xffff) = snd EA mod 65521"
    by (simp only: adler32_spec_hi one EA_def [symmetric])
  have y1: "unat (adler32_spec 1 B AND 0xffff) = fst EB mod 65521"
    by (simp only: adler32_spec_lo one EB_def [symmetric])
  have y2: "unat (drop_bit 16 (adler32_spec 1 B) AND 0xffff) = snd EB mod 65521"
    by (simp only: adler32_spec_hi one EB_def [symmetric])
  have len: "0 \<le> sint (word_of_nat (length B) :: 64 word)"
    and ulen: "unat (word_of_nat (length B) :: 64 word) = n"
    using sint_of_nat_64 [OF assms] by (simp_all add: n_def)
  have EAB: "exact_sums (1, 0) (A @ B) = (fst EB + d, snd EB + snd EA + n * d)"
    by (simp only: exact_sums_concat_init EA_def EB_def d_def n_def)
  have c: "adler32_combine' (adler32_spec 1 A) (adler32_spec 1 B) (word_of_nat (length B)) =
        word_of_nat (((1 + d) mod 65521 + fst EB mod 65521 + 65521 - 1) mod 65521)
          OR push_bit 16 (word_of_nat (((n mod 65521 * ((1 + d) mod 65521)) mod 65521
                 + snd EA mod 65521 + snd EB mod 65521 + 65521 - n mod 65521) mod 65521))"
    unfolding ulen [symmetric]
    by (rule combine_word [OF x1 _ x2 _ y1 _ y2 _ len]) simp_all
  have sp: "adler32_spec 1 (A @ B) =
        push_bit 16 (word_of_nat ((snd EB + snd EA + n * d) mod 65521))
          OR word_of_nat ((fst EB + d) mod 65521)"
    by (simp only: adler32_spec_alt one EAB fst_conv snd_conv)
  show ?thesis
    unfolding c sp combine_sum1 combine_sum2
    by (simp add: or.commute)
qed

text \<open>
  Claim C2. For byte sequences \<open>A\<close> and \<open>B\<close>, both checksums from the initial value 1 are
  defined, and combining them with the length of \<open>B\<close> gives the checksum of \<open>A @ B\<close>:
  through \<^verbatim>\<open>adler32_combine64\<close> for every length a \<^verbatim>\<open>z_off64_t\<close> holds, through
  \<^verbatim>\<open>adler32_combine\<close> for every length a 32-bit \<^verbatim>\<open>z_off_t\<close> holds.
\<close>

theorem adler32_combine_concat:
  assumes "length B < 2 ^ 63"
  shows "\<exists>a b. adler32_z 1 (Some A) (length A) = Some a
             \<and> adler32_z 1 (Some B) (length B) = Some b
             \<and> adler32_z 1 (Some (A @ B)) (length A + length B)
                 = Some (adler32_combine64 a b (word_of_nat (length B)))
             \<and> (length B < 2 ^ 31 \<longrightarrow>
                  adler32_z 1 (Some (A @ B)) (length A + length B)
                    = Some (adler32_combine a b (word_of_nat (length B))))"
proof -
  have r: "drop_bit 16 (1 :: uLong) AND 0xffff < BASE" by (simp add: BASE_def)
  have a: "adler32_z 1 (Some A) (length A) = Some (adler32_spec 1 A)"
    and b: "adler32_z 1 (Some B) (length B) = Some (adler32_spec 1 B)"
    using r by (simp_all add: adler32_z_spec)
  have ab: "adler32_z 1 (Some (A @ B)) (length A + length B) = Some (adler32_spec 1 (A @ B))"
    using adler32_z_spec [of "A @ B" 1] r by simp
  have c64: "adler32_combine64 (adler32_spec 1 A) (adler32_spec 1 B) (word_of_nat (length B)) = adler32_spec 1 (A @ B)"
    using adler32_combine_spec [OF assms] by (simp add: adler32_combine64_def)
  have c32: "adler32_combine (adler32_spec 1 A) (adler32_spec 1 B) (word_of_nat (length B)) = adler32_spec 1 (A @ B)"
    if "length B < 2 ^ 31"
    using adler32_combine_spec [OF assms] scast_of_nat_32 [OF that] by (simp add: adler32_combine_def)
  show ?thesis using a b ab c64 c32 by simp
qed

text \<open>The theorem at \<open>A\<close> = 1, 2 and \<open>B\<close> = 3.\<close>

theorem adler32_combine_concat_witness:
  "length [3 :: Bytef] < 2 ^ 63 \<and>
   (\<exists>a b. adler32_z 1 (Some [1, 2]) (length [1 :: Bytef, 2]) = Some a
             \<and> adler32_z 1 (Some [3]) (length [3 :: Bytef]) = Some b
             \<and> adler32_z 1 (Some ([1, 2] @ [3])) (length [1 :: Bytef, 2] + length [3 :: Bytef])
                 = Some (adler32_combine64 a b (word_of_nat (length [3 :: Bytef])))
             \<and> (length [3 :: Bytef] < 2 ^ 31 \<longrightarrow>
                  adler32_z 1 (Some ([1, 2] @ [3])) (length [1 :: Bytef, 2] + length [3 :: Bytef])
                    = Some (adler32_combine a b (word_of_nat (length [3 :: Bytef])))))"
proof -
  have h: "length [3 :: Bytef] < 2 ^ 63" by simp
  show ?thesis using h adler32_combine_concat [OF h, of "[1, 2]"] by blast
qed

section \<open>inflateBack (infback.c)\<close>

definition Z_STREAM_END :: int where "Z_STREAM_END = 1"
definition Z_STREAM_ERROR :: int where "Z_STREAM_ERROR = - 2"
definition Z_DATA_ERROR :: int where "Z_DATA_ERROR = - 3"
definition Z_MEM_ERROR :: int where "Z_MEM_ERROR = - 4"
definition Z_BUF_ERROR :: int where "Z_BUF_ERROR = - 5"
definition Z_VERSION_ERROR :: int where "Z_VERSION_ERROR = - 6"

text \<open>
  The headers inflate.h and inftrees.h are not among the sources; what follows is read off
  the uses in infback.c. Of the modes of \<^verbatim>\<open>inflate_mode\<close>, \<^verbatim>\<open>inflateBack\<close> has a case for
  \<^verbatim>\<open>TYPE\<close>, \<^verbatim>\<open>STORED\<close>, \<^verbatim>\<open>TABLE\<close>, \<^verbatim>\<open>LEN\<close>, \<^verbatim>\<open>DONE\<close> and \<^verbatim>\<open>BAD\<close>; every other mode takes the
  \<^verbatim>\<open>default\<close> case and is one constructor here. (\<^verbatim>\<open>TYPE\<close> is reserved syntax, hence the
  prefix.)
\<close>

datatype inflate_mode = M_TYPE | M_STORED | M_TABLE | M_LEN | M_DONE | M_BAD | M_OTHER

text \<open>A table entry \<^verbatim>\<open>code\<close>: \<^verbatim>\<open>op\<close>, \<^verbatim>\<open>bits\<close> (8 bits each) and \<^verbatim>\<open>val\<close> (16 bits).\<close>

record code =
  c_op :: "8 word"
  c_bits :: "8 word"
  c_val :: "16 word"

datatype codetype = CODES | LENS | DISTS

text \<open>
  The machine \<^verbatim>\<open>inflateBack\<close> runs on: the fields of \<^verbatim>\<open>z_stream\<close> and of
  \<^verbatim>\<open>struct inflate_state\<close> it uses, and its local variables. \<^verbatim>\<open>RESTORE\<close> and \<^verbatim>\<open>LOAD\<close> copy
  \<^verbatim>\<open>next\<close>, \<^verbatim>\<open>have\<close>, \<^verbatim>\<open>put\<close>, \<^verbatim>\<open>left\<close>, \<^verbatim>\<open>hold\<close>, \<^verbatim>\<open>bits\<close> to and from \<^verbatim>\<open>strm->next_in\<close>,
  \<^verbatim>\<open>strm->avail_in\<close>, \<^verbatim>\<open>strm->next_out\<close>, \<^verbatim>\<open>strm->avail_out\<close>, \<^verbatim>\<open>state->hold\<close>,
  \<^verbatim>\<open>state->bits\<close>; each pair is one field here.

  \<^item> \<open>next_in\<close> is the input pointer \<^verbatim>\<open>next\<close> with its extent: the bytes available at it,
    \<open>None\<close> for \<^verbatim>\<open>Z_NULL\<close>. \<^verbatim>\<open>have\<close> is the length of this list (\<open>avail_in\<close>).
  \<^item> \<open>window\<close> is the caller's buffer, \<open>put\<close> the index of the output pointer in it.
  \<^item> \<^verbatim>\<open>state->wsize\<close> is \<^verbatim>\<open>1U << windowBits\<close> ever since \<^verbatim>\<open>inflateBackInit_\<close>; it is
    computed from \<open>wbits\<close> (\<open>wsize\<close>).
  \<^item> \<open>hold\<close> is an \<^verbatim>\<open>unsigned long\<close>, 32 bits as in the checksum code; the counters are
    natural numbers: every subtraction in the source is guarded by a comparison, and the one
    that is not (\<^verbatim>\<open>--copy\<close> from zero) is written out where it occurs.
  \<^item> \<open>s_last\<close>, \<open>s_length\<close>, \<open>s_offset\<close>, \<open>s_have\<close> are \<^verbatim>\<open>state->last\<close>, \<^verbatim>\<open>state->length\<close>,
    \<^verbatim>\<open>state->offset\<close>, \<^verbatim>\<open>state->have\<close>; \<open>last_code\<close>, \<open>v_copy\<close>, \<open>v_len\<close> are the locals
    \<^verbatim>\<open>last\<close>, \<^verbatim>\<open>copy\<close>, \<^verbatim>\<open>len\<close>.
\<close>

record ib =
  next_in :: "Bytef list option"
  msg :: "string option"
  mode :: inflate_mode
  s_last :: nat
  wbits :: nat
  whave :: nat
  wnext :: nat
  dmax :: nat
  sane :: nat
  window :: "Bytef list"
  hold :: uLong
  bits :: nat
  s_length :: nat
  s_offset :: nat
  extra :: nat
  lencode :: "code list"
  distcode :: "code list"
  lenbits :: nat
  distbits :: nat
  ncode :: nat
  nlen :: nat
  ndist :: nat
  s_have :: nat
  lens :: "16 word list"
  put :: nat
  left :: nat
  here :: code
  last_code :: code
  v_copy :: nat
  v_len :: nat

definition wsize :: "ib \<Rightarrow> nat" where
  "wsize m = 2 ^ wbits m"

definition avail_in :: "ib \<Rightarrow> nat" where
  "avail_in m = (case next_in m of None \<Rightarrow> 0 | Some bs \<Rightarrow> length bs)"

text \<open>
  The code this file calls and the sources do not hold: \<^verbatim>\<open>inflate_table\<close> (inftrees.c),
  \<^verbatim>\<open>inflate_fast\<close> (inffast.c) and the fixed tables \<^verbatim>\<open>lenfix\<close>, \<^verbatim>\<open>distfix\<close> (inffixed.h).
  They are parameters. \<^verbatim>\<open>inflate_table(type, lens, codes, &table, &bits, work)\<close> is given
  the \<^verbatim>\<open>codes\<close> lengths at \<^verbatim>\<open>lens\<close> and the root bits, and yields its return value, the table
  it wrote at \<^verbatim>\<open>*table\<close> and the root bits it left in \<^verbatim>\<open>*bits\<close>. \<^verbatim>\<open>inflate_fast(strm, start)\<close>
  works on the stream and its state, not on the descriptors of the callbacks.
\<close>

record ext =
  inflate_table :: "codetype \<Rightarrow> 16 word list \<Rightarrow> nat \<Rightarrow> nat \<Rightarrow> int \<times> code list \<times> nat"
  inflate_fast :: "ib \<Rightarrow> nat \<Rightarrow> ib"
  lenfix :: "code list"
  distfix :: "code list"

text \<open>
  Control: a piece of the function body either goes on (\<open>Next\<close>), jumps to \<^verbatim>\<open>inf_leave\<close>
  with a value for \<^verbatim>\<open>ret\<close> (\<open>Leave\<close>), or reads or writes outside an array (\<open>Fault\<close>), after
  which C defines nothing.
\<close>

datatype 's flow = Next 's | Leave int 's | Fault

definition flow_bind :: "'s flow \<Rightarrow> ('s \<Rightarrow> 's flow) \<Rightarrow> 's flow" where
  "flow_bind f g = (case f of Next s \<Rightarrow> g s | Leave r s \<Rightarrow> Leave r s | Fault \<Rightarrow> Fault)"

lemma flow_bind_cong [fundef_cong]:
  "f = f' \<Longrightarrow> (\<And>s. f' = Next s \<Longrightarrow> g s = g' s) \<Longrightarrow> flow_bind f g = flow_bind f' g'"
  by (auto simp: flow_bind_def split: flow.splits)

text \<open>
  The callbacks: \<^verbatim>\<open>in(in_desc, &next)\<close> returns the bytes it provides (their number is its
  return value) and \<^verbatim>\<open>out(out_desc, buf, len)\<close> its \<^verbatim>\<open>int\<close>; both may change what their
  descriptor points to. A state of the run is the machine with the two descriptors.
\<close>

type_synonym 'i in_func = "'i \<Rightarrow> Bytef list \<times> 'i"
type_synonym 'o out_func = "'o \<Rightarrow> Bytef list \<Rightarrow> int \<times> 'o"
type_synonym ('i, 'o) mach = "ib \<times> 'i \<times> 'o"

definition on_ib :: "(ib \<Rightarrow> ib) \<Rightarrow> ('i, 'o) mach \<Rightarrow> ('i, 'o) mach" where
  "on_ib f s = (case s of (m, ind, outd) \<Rightarrow> (f m, ind, outd))"

subsection \<open>The macros\<close>

definition INITBITS :: "ib \<Rightarrow> ib" where
  "INITBITS m = m\<lparr>hold := 0, bits := 0\<rparr>"

definition PULL :: "'i in_func \<Rightarrow> ('i, 'o) mach \<Rightarrow> ('i, 'o) mach flow" where
  "PULL in_f s =
     (case s of (m, ind, outd) \<Rightarrow>
        if avail_in m = 0 then
          (case in_f ind of (buf, ind') \<Rightarrow>
             if length buf = 0 then Leave Z_BUF_ERROR (m\<lparr>next_in := None\<rparr>, ind', outd)
             else Next (m\<lparr>next_in := Some buf\<rparr>, ind', outd))
        else Next (m, ind, outd))"

definition PULLBYTE :: "'i in_func \<Rightarrow> ('i, 'o) mach \<Rightarrow> ('i, 'o) mach flow" where
  "PULLBYTE in_f s =
     flow_bind (PULL in_f s) (\<lambda>(m, ind, outd).
       case next_in m of
         Some (b # bs) \<Rightarrow>
           Next (m\<lparr>next_in := Some bs, hold := hold m + push_bit (bits m) (ucast b), bits := bits m + 8\<rparr>,
                 ind, outd)
       | _ \<Rightarrow> Fault)"

function NEEDBITS :: "'i in_func \<Rightarrow> nat \<Rightarrow> ('i, 'o) mach \<Rightarrow> ('i, 'o) mach flow" where
  "NEEDBITS in_f n s =
     (if bits (fst s) < n then flow_bind (PULLBYTE in_f s) (NEEDBITS in_f n) else Next s)"
  by pat_completeness auto

lemma PULL_Next_eq: "PULL in_f s = Next s' \<Longrightarrow>
    fst s' = (fst s)\<lparr>next_in := next_in (fst s')\<rparr> \<and> avail_in (fst s') > 0 \<and> snd (snd s') = snd (snd s)"
  by (cases s) (auto simp: PULL_def avail_in_def split: if_splits prod.splits option.splits)

lemma PULL_Next: "PULL in_f s = Next s' \<Longrightarrow>
    (\<exists>nx. fst s' = (fst s)\<lparr>next_in := nx\<rparr>) \<and> avail_in (fst s') > 0 \<and> snd (snd s') = snd (snd s)"
  using PULL_Next_eq [of in_f s s'] by blast

lemma PULLBYTE_Next_eq: "PULLBYTE in_f s = Next s' \<Longrightarrow>
    fst s' = (fst s)\<lparr>next_in := next_in (fst s'), hold := hold (fst s'), bits := bits (fst s) + 8\<rparr>
    \<and> snd (snd s') = snd (snd s)"
  by (cases s) (auto simp: PULLBYTE_def flow_bind_def dest!: PULL_Next split: flow.splits option.splits list.splits)

lemma PULLBYTE_Next: "PULLBYTE in_f s = Next s' \<Longrightarrow>
    (\<exists>nx h. fst s' = (fst s)\<lparr>next_in := nx, hold := h, bits := bits (fst s) + 8\<rparr>) \<and> snd (snd s') = snd (snd s)"
  using PULLBYTE_Next_eq [of in_f s s'] by blast

termination NEEDBITS
  by (relation "measure (\<lambda>(in_f, n, s). n - bits (fst s))") (auto dest!: PULLBYTE_Next)

declare NEEDBITS.simps [simp del]

text \<open>\<^verbatim>\<open>BITS(n)\<close> is \<^verbatim>\<open>(unsigned)hold & ((1U << (n)) - 1)\<close>, for \<open>n\<close> below the width of \<^verbatim>\<open>unsigned\<close>.\<close>

definition BITS :: "nat \<Rightarrow> ib \<Rightarrow> nat" where
  "BITS n m = unat (hold m AND (push_bit n 1 - 1))"

definition DROPBITS :: "nat \<Rightarrow> ib \<Rightarrow> ib" where
  "DROPBITS n m = m\<lparr>hold := drop_bit n (hold m), bits := bits m - n\<rparr>"

text \<open>\<^verbatim>\<open>bits & 7\<close> is \<open>bits mod 8\<close>.\<close>

definition BYTEBITS :: "ib \<Rightarrow> ib" where
  "BYTEBITS m = m\<lparr>hold := drop_bit (bits m mod 8) (hold m), bits := bits m - bits m mod 8\<rparr>"

text \<open>
  \<^verbatim>\<open>ROOM()\<close>: \<^verbatim>\<open>out\<close> is given the window from its start, \<^verbatim>\<open>state->wsize\<close> bytes of it.
\<close>

definition ROOM :: "'o out_func \<Rightarrow> ('i, 'o) mach \<Rightarrow> ('i, 'o) mach flow" where
  "ROOM out_f s =
     (case s of (m, ind, outd) \<Rightarrow>
        if left m = 0 then
          (let m = m\<lparr>put := 0, left := wsize m, whave := wsize m\<rparr> in
           case out_f outd (take (left m) (window m)) of (r, outd') \<Rightarrow>
             if r \<noteq> 0 then Leave Z_BUF_ERROR (m, ind, outd') else Next (m, ind, outd'))
        else Next (m, ind, outd))"

text \<open>\<^verbatim>\<open>fixedtables\<close> without \<^verbatim>\<open>BUILDFIXED\<close>: the tables of inffixed.h.\<close>

definition fixedtables :: "ext \<Rightarrow> ib \<Rightarrow> ib" where
  "fixedtables e m = m\<lparr>lencode := lenfix e, lenbits := 9, distcode := distfix e, distbits := 5\<rparr>"

text \<open>\<^verbatim>\<open>order\<close>, the permutation of the code length codes.\<close>

definition order :: "nat list" where
  "order = [16, 17, 18, 0, 8, 7, 9, 6, 10, 5, 11, 4, 12, 3, 13, 2, 14, 1, 15]"

text \<open>
  \<^verbatim>\<open>zmemcpy(dest, source, len)\<close> of zutil.c, with \<^verbatim>\<open>dest\<close> the window at index \<open>p\<close>:
  \<^verbatim>\<open>if (len == 0) return; do { *dest++ = *source++; } while (--len != 0);\<close>
\<close>

function zmemcpy_loop :: "Bytef list \<Rightarrow> nat \<Rightarrow> Bytef list \<Rightarrow> nat \<Rightarrow> Bytef list" where
  "zmemcpy_loop dest p source len =
     (let dest = dest[p := hd source] in
      if len - 1 \<noteq> 0 then zmemcpy_loop dest (p + 1) (tl source) (len - 1) else dest)"
  by pat_completeness auto
termination
  by (relation "measure (\<lambda>(dest, p, source, len). len)") auto

declare zmemcpy_loop.simps [simp del]

definition zmemcpy :: "Bytef list \<Rightarrow> nat \<Rightarrow> Bytef list \<Rightarrow> nat \<Rightarrow> Bytef list" where
  "zmemcpy dest p source len = (if len = 0 then dest else zmemcpy_loop dest p source len)"

subsection \<open>case TYPE\<close>

definition TYPE_case :: "ext \<Rightarrow> 'i in_func \<Rightarrow> ('i, 'o) mach \<Rightarrow> ('i, 'o) mach flow" where
  "TYPE_case e in_f s =
     (if s_last (fst s) \<noteq> 0 then Next (on_ib (\<lambda>m. (BYTEBITS m)\<lparr>mode := M_DONE\<rparr>) s)
      else
        flow_bind (NEEDBITS in_f 3 s) (\<lambda>s.
          Next (on_ib (\<lambda>m.
            let m = m\<lparr>s_last := BITS 1 m\<rparr>;
                m = DROPBITS 1 m;
                m = (if BITS 2 m = 0 then m\<lparr>mode := M_STORED\<rparr>
                     else if BITS 2 m = 1 then (fixedtables e m)\<lparr>mode := M_LEN\<rparr>
                     else if BITS 2 m = 2 then m\<lparr>mode := M_TABLE\<rparr>
                     else m\<lparr>msg := Some ''invalid block type'', mode := M_BAD\<rparr>)
            in DROPBITS 2 m) s)))"

subsection \<open>case STORED\<close>

text \<open>
  \<^verbatim>\<open>while (state->length != 0) { copy = state->length; PULL(); ROOM(); ... }\<close>: the round
  after \<^verbatim>\<open>PULL()\<close> and \<^verbatim>\<open>ROOM()\<close> is \<open>stored_chunk\<close>, on the stream alone; \<open>on_ib_flow\<close>
  runs such a piece in a state of the run.
\<close>

definition stored_chunk :: "ib \<Rightarrow> ib flow" where
  "stored_chunk m =
     (let copy = s_length m;
          copy = (if copy > avail_in m then avail_in m else copy);
          copy = (if copy > left m then left m else copy)
      in case next_in m of
           None \<Rightarrow> Fault
         | Some bs \<Rightarrow>
             if put m + copy > length (window m) then Fault
             else Next (m\<lparr>window := zmemcpy (window m) (put m) bs copy,
                          next_in := Some (drop copy bs),
                          left := left m - copy,
                          put := put m + copy,
                          s_length := s_length m - copy\<rparr>))"

definition on_ib_flow :: "(ib \<Rightarrow> ib flow) \<Rightarrow> ('i, 'o) mach \<Rightarrow> ('i, 'o) mach flow" where
  "on_ib_flow f s =
     (case s of (m, ind, outd) \<Rightarrow>
        case f m of Next m' \<Rightarrow> Next (m', ind, outd) | Leave r m' \<Rightarrow> Leave r (m', ind, outd) | Fault \<Rightarrow> Fault)"

function stored_copy :: "'i in_func \<Rightarrow> 'o out_func \<Rightarrow> ('i, 'o) mach \<Rightarrow> ('i, 'o) mach flow" where
  "stored_copy in_f out_f s =
     (if s_length (fst s) \<noteq> 0 then
        flow_bind (PULL in_f s) (\<lambda>s.
        flow_bind (ROOM out_f s) (\<lambda>s.
        flow_bind (on_ib_flow stored_chunk s) (stored_copy in_f out_f)))
      else Next s)"
  by pat_completeness auto

lemma ROOM_Next_eq: "ROOM out_f s = Next s' \<Longrightarrow>
    fst s' = (fst s)\<lparr>put := put (fst s'), left := left (fst s'), whave := whave (fst s')\<rparr>
    \<and> left (fst s') > 0 \<and> fst (snd s') = fst (snd s)"
  by (cases s) (auto simp: ROOM_def wsize_def Let_def split: if_splits prod.splits)

lemma ROOM_Next: "ROOM out_f s = Next s' \<Longrightarrow>
    (\<exists>p l w. fst s' = (fst s)\<lparr>put := p, left := l, whave := w\<rparr>) \<and> left (fst s') > 0 \<and> fst (snd s') = fst (snd s)"
  using ROOM_Next_eq [of out_f s s'] by blast

lemma stored_chunk_Next: "stored_chunk m = Next m' \<Longrightarrow> 0 < avail_in m \<Longrightarrow> 0 < left m \<Longrightarrow> 0 < s_length m \<Longrightarrow>
    s_length m' < s_length m"
  by (auto simp: stored_chunk_def Let_def avail_in_def split: option.splits if_splits)

termination stored_copy
  apply (relation "measure (\<lambda>(in_f, out_f, s). s_length (fst s))")
   apply simp
  subgoal for in_f out_f s s1 s2 s3
    using stored_chunk_Next [of "fst s2" "fst s3"]
    by (cases s2) (auto dest!: PULL_Next ROOM_Next simp: on_ib_flow_def avail_in_def split: flow.splits)
  done

declare stored_copy.simps [simp del]

definition STORED_case :: "'i in_func \<Rightarrow> 'o out_func \<Rightarrow> ('i, 'o) mach \<Rightarrow> ('i, 'o) mach flow" where
  "STORED_case in_f out_f s =
     flow_bind (NEEDBITS in_f 32 (on_ib BYTEBITS s)) (\<lambda>s.
       if hold (fst s) AND 0xffff \<noteq> drop_bit 16 (hold (fst s)) XOR 0xffff then
         Next (on_ib (\<lambda>m. m\<lparr>msg := Some ''invalid stored block lengths'', mode := M_BAD\<rparr>) s)
       else
         flow_bind
           (stored_copy in_f out_f
              (on_ib (\<lambda>m. INITBITS (m\<lparr>s_length := unat (hold m AND 0xffff)\<rparr>)) s))
           (\<lambda>s. Next (on_ib (\<lambda>m. m\<lparr>mode := M_TYPE\<rparr>) s)))"


subsection \<open>Decoding a code\<close>

text \<open>
  \<^verbatim>\<open>for (;;) { here = table[BITS(n)]; if ((unsigned)(here.bits) <= bits) break; PULLBYTE(); }\<close>
  with \<^verbatim>\<open>table\<close>, \<^verbatim>\<open>n\<close> being \<^verbatim>\<open>state->lencode\<close>, \<^verbatim>\<open>state->lenbits\<close> or \<^verbatim>\<open>state->distcode\<close>,
  \<^verbatim>\<open>state->distbits\<close>. An index past the end of the table is a read outside the array.
\<close>

function lookup :: "'i in_func \<Rightarrow> (ib \<Rightarrow> code list) \<Rightarrow> (ib \<Rightarrow> nat) \<Rightarrow> ('i, 'o) mach \<Rightarrow> ('i, 'o) mach flow" where
  "lookup in_f table n s =
     (case s of (m, ind, outd) \<Rightarrow>
        if BITS (n m) m < length (table m) then
          (let m = m\<lparr>here := table m ! BITS (n m) m\<rparr> in
           if unat (c_bits (here m)) \<le> bits m then Next (m, ind, outd)
           else flow_bind (PULLBYTE in_f (m, ind, outd)) (lookup in_f table n))
        else Fault)"
  by pat_completeness auto

lemma unat_c_bits_le: "unat (w :: 8 word) \<le> 255"
proof -
  have "unat w < 2 ^ LENGTH(8)" by (rule unsigned_less)
  then show ?thesis by simp
qed

termination lookup
  apply (relation "measure (\<lambda>(in_f, table, n, s). 256 - bits (fst s))")
   apply simp
  subgoal for in_f table n s m x2 ind outd m' s'
    using unat_c_bits_le [of "c_bits (here m')"]
    by (auto dest!: PULLBYTE_Next)
  done

declare lookup.simps [simp del]

text \<open>
  The second level:
  \<^verbatim>\<open>for (;;) { here = table[last.val + (BITS(last.bits + last.op) >> last.bits)];\<close>
  \<^verbatim>\<open>if ((unsigned)(last.bits + here.bits) <= bits) break; PULLBYTE(); }\<close>
\<close>

function lookup2 :: "'i in_func \<Rightarrow> (ib \<Rightarrow> code list) \<Rightarrow> ('i, 'o) mach \<Rightarrow> ('i, 'o) mach flow" where
  "lookup2 in_f table s =
     (case s of (m, ind, outd) \<Rightarrow>
        let l = last_code m;
            idx = unat (c_val l) + drop_bit (unat (c_bits l)) (BITS (unat (c_bits l) + unat (c_op l)) m)
        in if idx < length (table m) then
             (let m = m\<lparr>here := table m ! idx\<rparr> in
              if unat (c_bits l) + unat (c_bits (here m)) \<le> bits m then Next (m, ind, outd)
              else flow_bind (PULLBYTE in_f (m, ind, outd)) (lookup2 in_f table))
           else Fault)"
  by pat_completeness auto

termination lookup2
  apply (relation "measure (\<lambda>(in_f, table, s). 511 - bits (fst s))")
   apply simp
  subgoal for in_f table s m x2 ind outd l idx m' s'
    using unat_c_bits_le [of "c_bits (here m')"] unat_c_bits_le [of "c_bits l"]
    by (auto dest!: PULLBYTE_Next)
  done

declare lookup2.simps [simp del]

subsection \<open>case TABLE\<close>

text \<open>
  \<^verbatim>\<open>while (state->have < state->ncode) { NEEDBITS(3);\<close>
  \<^verbatim>\<open>state->lens[order[state->have++]] = (unsigned short)BITS(3); DROPBITS(3); }\<close>
\<close>

function read_lenlens :: "'i in_func \<Rightarrow> ('i, 'o) mach \<Rightarrow> ('i, 'o) mach flow" where
  "read_lenlens in_f s =
     (if s_have (fst s) < ncode (fst s) then
        flow_bind (NEEDBITS in_f 3 s) (\<lambda>s.
          read_lenlens in_f
            (on_ib (\<lambda>m. DROPBITS 3
                      (m\<lparr>lens := (lens m)[order ! s_have m := word_of_nat (BITS 3 m)],
                         s_have := s_have m + 1\<rparr>)) s))
      else Next s)"
  by pat_completeness auto

lemma NEEDBITS_Next_eq: "NEEDBITS in_f n s = Next s' \<Longrightarrow>
    fst s' = (fst s)\<lparr>next_in := next_in (fst s'), hold := hold (fst s'), bits := bits (fst s')\<rparr>
    \<and> n \<le> bits (fst s') \<and> snd (snd s') = snd (snd s)"
proof (induction in_f n s rule: NEEDBITS.induct)
  case (1 in_f n s)
  show ?case
  proof (cases "bits (fst s) < n")
    case False
    with "1.prems" show ?thesis by (simp add: NEEDBITS.simps)
  next
    case True
    with "1.prems" obtain s1 where p: "PULLBYTE in_f s = Next s1" and n: "NEEDBITS in_f n s1 = Next s'"
      by (subst (asm) NEEDBITS.simps) (auto simp: flow_bind_def split: flow.splits)
    note ih = "1.IH" [OF True p n]
    note pb = PULLBYTE_Next_eq [OF p]
    have "fst s' = (fst s1)\<lparr>next_in := next_in (fst s'), hold := hold (fst s'), bits := bits (fst s')\<rparr>"
      using ih by simp
    also have "\<dots> = (fst s)\<lparr>next_in := next_in (fst s'), hold := hold (fst s'), bits := bits (fst s')\<rparr>"
      by (subst conjunct1 [OF pb]) simp
    finally show ?thesis using ih pb by simp
  qed
qed

lemma NEEDBITS_Next: "NEEDBITS in_f n s = Next s' \<Longrightarrow>
    (\<exists>nx h b. fst s' = (fst s)\<lparr>next_in := nx, hold := h, bits := b\<rparr>)
    \<and> n \<le> bits (fst s') \<and> snd (snd s') = snd (snd s)"
  using NEEDBITS_Next_eq [of in_f n s s'] by blast

termination read_lenlens
  apply (relation "measure (\<lambda>(in_f, s). ncode (fst s) - s_have (fst s))")
   apply simp
  apply (auto dest!: NEEDBITS_Next simp: on_ib_def DROPBITS_def split: prod.splits)
  done

declare read_lenlens.simps [simp del]

text \<open>\<^verbatim>\<open>while (state->have < 19) state->lens[order[state->have++]] = 0;\<close>\<close>

function zero_lenlens :: "ib \<Rightarrow> ib" where
  "zero_lenlens m =
     (if s_have m < 19 then
        zero_lenlens (m\<lparr>lens := (lens m)[order ! s_have m := 0], s_have := s_have m + 1\<rparr>)
      else m)"
  by pat_completeness auto
termination
  by (relation "measure (\<lambda>m. 19 - s_have m)") auto

declare zero_lenlens.simps [simp del]

text \<open>\<^verbatim>\<open>while (copy--) state->lens[state->have++] = (unsigned short)len;\<close>\<close>

fun repeat_len :: "nat \<Rightarrow> nat \<Rightarrow> ib \<Rightarrow> ib" where
  "repeat_len 0 len m = m"
| "repeat_len (Suc copy) len m =
     repeat_len copy len (m\<lparr>lens := (lens m)[s_have m := word_of_nat len], s_have := s_have m + 1\<rparr>)"

text \<open>
  The end of a round that repeats a length:
  \<^verbatim>\<open>if (state->have + copy > state->nlen + state->ndist) { ... break; }\<close>
  \<^verbatim>\<open>while (copy--) state->lens[state->have++] = (unsigned short)len;\<close>
\<close>

definition repeat_lens :: "ib \<Rightarrow> ib" where
  "repeat_lens m =
     (if s_have m + v_copy m > nlen m + ndist m then
        m\<lparr>msg := Some ''invalid bit length repeat'', mode := M_BAD\<rparr>
      else (repeat_len (v_copy m) (v_len m) m)\<lparr>v_copy := 0\<rparr>)"

text \<open>
  One round of \<^verbatim>\<open>while (state->have < state->nlen + state->ndist)\<close>, after the code
  \<^verbatim>\<open>here\<close> is decoded. A \<^verbatim>\<open>break\<close> out of the loop leaves \<^verbatim>\<open>state->mode\<close> at \<^verbatim>\<open>BAD\<close>.
  (\<^verbatim>\<open>while (copy--)\<close> leaves \<^verbatim>\<open>copy\<close> wrapped around to \<open>2^32 - 1\<close>; it is assigned before
  it is read again, and the model leaves it at 0.)
\<close>

definition codelens_step :: "'i in_func \<Rightarrow> ('i, 'o) mach \<Rightarrow> ('i, 'o) mach flow" where
  "codelens_step in_f s =
     (let h = here (fst s); hb = unat (c_bits h) in
      if c_val h < 16 then
        Next (on_ib (\<lambda>m. let m = DROPBITS hb m
                          in m\<lparr>lens := (lens m)[s_have m := c_val h], s_have := s_have m + 1\<rparr>) s)
      else if c_val h = 16 then
        flow_bind (NEEDBITS in_f (hb + 2) s) (\<lambda>s.
          Next (on_ib (\<lambda>m.
            let m = DROPBITS hb m in
            if s_have m = 0 then m\<lparr>msg := Some ''invalid bit length repeat'', mode := M_BAD\<rparr>
            else
              let m = m\<lparr>v_len := unat (lens m ! (s_have m - 1))\<rparr>;
                  m = m\<lparr>v_copy := 3 + BITS 2 m\<rparr>;
                  m = DROPBITS 2 m
              in repeat_lens m) s))
      else if c_val h = 17 then
        flow_bind (NEEDBITS in_f (hb + 3) s) (\<lambda>s.
          Next (on_ib (\<lambda>m.
            let m = DROPBITS hb m;
                m = m\<lparr>v_len := 0\<rparr>;
                m = m\<lparr>v_copy := 3 + BITS 3 m\<rparr>;
                m = DROPBITS 3 m
            in repeat_lens m) s))
      else
        flow_bind (NEEDBITS in_f (hb + 7) s) (\<lambda>s.
          Next (on_ib (\<lambda>m.
            let m = DROPBITS hb m;
                m = m\<lparr>v_len := 0\<rparr>;
                m = m\<lparr>v_copy := 11 + BITS 7 m\<rparr>;
                m = DROPBITS 7 m
            in repeat_lens m) s)))"

lemma lookup_Next_eq: "lookup in_f table n s = Next s' \<Longrightarrow>
    fst s' = (fst s)\<lparr>next_in := next_in (fst s'), hold := hold (fst s'), bits := bits (fst s'),
                      here := here (fst s')\<rparr>
    \<and> snd (snd s') = snd (snd s)"
proof (induction in_f table n s rule: lookup.induct)
  case (1 in_f table n s)
  obtain m ind outd where s: "s = (m, ind, outd)" by (cases s)
  define h where "h = table m ! BITS (n m) m"
  from "1.prems" have inr: "BITS (n m) m < length (table m)"
    by (subst (asm) lookup.simps) (simp add: s split: if_splits)
  show ?case
  proof (cases "unat (c_bits h) \<le> bits m")
    case True
    with "1.prems" inr show ?thesis
      by (subst (asm) lookup.simps) (auto simp: s h_def Let_def)
  next
    case False
    with "1.prems" inr obtain s1 where p: "PULLBYTE in_f (m\<lparr>here := h\<rparr>, ind, outd) = Next s1"
      and n: "lookup in_f table n s1 = Next s'"
      by (subst (asm) lookup.simps) (auto simp: s h_def Let_def flow_bind_def split: flow.splits)
    have ih: "fst s' = (fst s1)\<lparr>next_in := next_in (fst s'), hold := hold (fst s'), bits := bits (fst s'),
                      here := here (fst s')\<rparr> \<and> snd (snd s') = snd (snd s1)"
      using "1.IH" [of m "(ind, outd)" ind outd "m\<lparr>here := h\<rparr>" s1] s inr False p n
      by (simp add: h_def)
    note pb = PULLBYTE_Next_eq [OF p]
    have "fst s' = (fst s1)\<lparr>next_in := next_in (fst s'), hold := hold (fst s'), bits := bits (fst s'),
                      here := here (fst s')\<rparr>"
      using ih by simp
    also have "\<dots> = m\<lparr>next_in := next_in (fst s'), hold := hold (fst s'), bits := bits (fst s'),
                      here := here (fst s')\<rparr>"
      by (subst conjunct1 [OF pb]) simp
    finally show ?thesis using ih pb by (simp add: s)
  qed
qed

lemma lookup_Next: "lookup in_f table n s = Next s' \<Longrightarrow>
    (\<exists>nx h b c. fst s' = (fst s)\<lparr>next_in := nx, hold := h, bits := b, here := c\<rparr>)
    \<and> snd (snd s') = snd (snd s)"
  using lookup_Next_eq [of in_f table n s s'] by blast

lemma repeat_len_fields:
  "s_have (repeat_len c l m) = s_have m + c"
  "nlen (repeat_len c l m) = nlen m"
  "ndist (repeat_len c l m) = ndist m"
  "mode (repeat_len c l m) = mode m"
  by (induction c arbitrary: m) simp_all

lemma codelens_step_Next: "codelens_step in_f s = Next s' \<Longrightarrow>
    nlen (fst s') = nlen (fst s) \<and> ndist (fst s') = ndist (fst s)
    \<and> (mode (fst s') \<noteq> M_BAD \<longrightarrow> s_have (fst s) < s_have (fst s'))"
  by (cases s)
     (auto simp: codelens_step_def Let_def on_ib_def flow_bind_def DROPBITS_def repeat_lens_def
           repeat_len_fields
           dest!: NEEDBITS_Next split: if_splits flow.splits prod.splits)

text \<open>
  \<^verbatim>\<open>while (state->have < state->nlen + state->ndist) { ... }\<close>. The mode is \<^verbatim>\<open>TABLE\<close>
  when the loop is entered and a round changes it only where it breaks out, to \<^verbatim>\<open>BAD\<close>.
\<close>

function codelens :: "'i in_func \<Rightarrow> ('i, 'o) mach \<Rightarrow> ('i, 'o) mach flow" where
  "codelens in_f s =
     (if s_have (fst s) < nlen (fst s) + ndist (fst s) then
        flow_bind (lookup in_f lencode lenbits s) (\<lambda>s.
        flow_bind (codelens_step in_f s) (\<lambda>s.
          if mode (fst s) = M_BAD then Next s else codelens in_f s))
      else Next s)"
  by pat_completeness auto
termination
  apply (relation "measure (\<lambda>(in_f, s). nlen (fst s) + ndist (fst s) - s_have (fst s))")
   apply simp
  apply (auto dest!: lookup_Next codelens_step_Next)
  done

declare codelens.simps [simp del]

subsection \<open>case LEN\<close>

text \<open>
  The inner loop \<^verbatim>\<open>do { *put++ = *from++; } while (--copy);\<close> on indices into the window.
  Entered with \<^verbatim>\<open>copy\<close> zero, \<^verbatim>\<open>--copy\<close> wraps around and the loop runs off the window.
\<close>

function copy_bytes :: "nat \<Rightarrow> ib \<Rightarrow> ib flow" where
  "copy_bytes from m =
     (if v_copy m = 0 \<or> length (window m) \<le> from \<or> length (window m) \<le> put m then Fault
      else
        let m = m\<lparr>window := (window m)[put m := window m ! from], put := put m + 1, v_copy := v_copy m - 1\<rparr>
        in if v_copy m \<noteq> 0 then copy_bytes (from + 1) m else Next m)"
  by pat_completeness auto
termination
  by (relation "measure (\<lambda>(from, m). v_copy m)") auto

declare copy_bytes.simps [simp del]

lemma copy_bytes_Next_eq: "copy_bytes from m = Next m' \<Longrightarrow>
    m' = m\<lparr>window := window m', put := put m', v_copy := 0\<rparr> \<and> v_copy m \<noteq> 0"
proof (induction "from" m rule: copy_bytes.induct)
  case (1 "from" m)
  define m1 where "m1 = m\<lparr>window := (window m)[put m := window m ! from], put := put m + 1, v_copy := v_copy m - 1\<rparr>"
  from "1.prems" have ok: "\<not> (v_copy m = 0 \<or> length (window m) \<le> from \<or> length (window m) \<le> put m)"
    by (subst (asm) copy_bytes.simps) (simp split: if_splits)
  show ?case
  proof (cases "v_copy m1 \<noteq> 0")
    case True
    with "1.prems" ok have n: "copy_bytes (from + 1) m1 = Next m'"
      by (subst (asm) copy_bytes.simps) (simp add: m1_def Let_def)
    have "m' = m1\<lparr>window := window m', put := put m', v_copy := 0\<rparr>"
      using "1.IH" [OF ok m1_def True n] by simp
    then show ?thesis using ok by (simp add: m1_def)
  next
    case False
    with "1.prems" ok have "m' = m1"
      by (subst (asm) copy_bytes.simps) (simp add: m1_def Let_def)
    with False ok show ?thesis by (simp add: m1_def)
  qed
qed

lemma copy_bytes_Next: "copy_bytes from m = Next m' \<Longrightarrow>
    (\<exists>w p. m' = m\<lparr>window := w, put := p, v_copy := 0\<rparr>) \<and> v_copy m \<noteq> 0"
  using copy_bytes_Next_eq [of "from" m m'] by blast

text \<open>
  The body of \<^verbatim>\<open>do { ROOM(); copy = state->wsize - state->offset; ... } while (state->length != 0);\<close>
  after \<^verbatim>\<open>ROOM()\<close>. \<^verbatim>\<open>from = put - state->offset\<close> with the offset larger than the index of
  \<^verbatim>\<open>put\<close> points before the window.
\<close>

definition match_chunk :: "ib \<Rightarrow> ib flow" where
  "match_chunk m =
     (let m = m\<lparr>v_copy := wsize m - s_offset m\<rparr> in
      if v_copy m \<ge> left m \<and> put m < s_offset m then Fault
      else
        let from = (if v_copy m < left m then put m + v_copy m else put m - s_offset m);
            m = (if v_copy m < left m then m\<lparr>v_copy := left m - v_copy m\<rparr> else m\<lparr>v_copy := left m\<rparr>);
            m = (if v_copy m > s_length m then m\<lparr>v_copy := s_length m\<rparr> else m);
            m = m\<lparr>s_length := s_length m - v_copy m\<rparr>;
            m = m\<lparr>left := left m - v_copy m\<rparr>
        in copy_bytes from m)"

lemma match_chunk_Next: "match_chunk m = Next m' \<Longrightarrow> s_length m' < s_length m"
  by (auto simp: match_chunk_def Let_def dest!: copy_bytes_Next split: if_splits)

function match_copy :: "'o out_func \<Rightarrow> ('i, 'o) mach \<Rightarrow> ('i, 'o) mach flow" where
  "match_copy out_f s =
     flow_bind (ROOM out_f s) (\<lambda>s.
     flow_bind (on_ib_flow match_chunk s) (\<lambda>s.
       if s_length (fst s) \<noteq> 0 then match_copy out_f s else Next s))"
  by pat_completeness auto
termination
  apply (relation "measure (\<lambda>(out_f, s). s_length (fst s))")
   apply simp
  apply (auto simp: on_ib_flow_def dest!: ROOM_Next match_chunk_Next split: flow.splits prod.splits)
  done

declare match_copy.simps [simp del]


text \<open>
  Decoding the literal/length code: the first level, the second level for a table link
  (\<^verbatim>\<open>here.op && (here.op & 0xf0) == 0\<close>), \<^verbatim>\<open>DROPBITS(here.bits)\<close> and
  \<^verbatim>\<open>state->length = (unsigned)here.val\<close>.
\<close>

definition decode_len :: "'i in_func \<Rightarrow> ('i, 'o) mach \<Rightarrow> ('i, 'o) mach flow" where
  "decode_len in_f s =
     flow_bind (lookup in_f lencode lenbits s) (\<lambda>s.
     flow_bind
       (if c_op (here (fst s)) \<noteq> 0 \<and> c_op (here (fst s)) AND 0xf0 = 0 then
          flow_bind (lookup2 in_f lencode (on_ib (\<lambda>m. m\<lparr>last_code := here m\<rparr>) s)) (\<lambda>s.
            Next (on_ib (\<lambda>m. DROPBITS (unat (c_bits (last_code m))) m) s))
        else Next s)
       (\<lambda>s. Next (on_ib (\<lambda>m. (DROPBITS (unat (c_bits (here m))) m)\<lparr>s_length := unat (c_val (here m))\<rparr>) s)))"

text \<open>Processing a literal: \<^verbatim>\<open>ROOM(); *put++ = (unsigned char)(state->length); left--;\<close>\<close>

definition literal :: "'o out_func \<Rightarrow> ('i, 'o) mach \<Rightarrow> ('i, 'o) mach flow" where
  "literal out_f s =
     flow_bind (ROOM out_f s) (\<lambda>s.
       case s of (m, ind, outd) \<Rightarrow>
         if put m < length (window m) then
           Next (m\<lparr>window := (window m)[put m := word_of_nat (s_length m)],
                   put := put m + 1, left := left m - 1, mode := M_LEN\<rparr>, ind, outd)
         else Fault)"

text \<open>The extra bits of a length code.\<close>

definition len_extra :: "'i in_func \<Rightarrow> ('i, 'o) mach \<Rightarrow> ('i, 'o) mach flow" where
  "len_extra in_f s =
     (let s = on_ib (\<lambda>m. m\<lparr>extra := unat (c_op (here m) AND 15)\<rparr>) s in
      if extra (fst s) \<noteq> 0 then
        flow_bind (NEEDBITS in_f (extra (fst s)) s) (\<lambda>s.
          Next (on_ib (\<lambda>m. DROPBITS (extra m) (m\<lparr>s_length := s_length m + BITS (extra m) m\<rparr>)) s))
      else Next s)"

text \<open>
  Decoding the distance code, up to \<^verbatim>\<open>state->offset = (unsigned)here.val\<close>; an invalid code
  sets the mode to \<^verbatim>\<open>BAD\<close> and breaks.
\<close>

definition decode_dist :: "'i in_func \<Rightarrow> ('i, 'o) mach \<Rightarrow> ('i, 'o) mach flow" where
  "decode_dist in_f s =
     flow_bind (lookup in_f distcode distbits s) (\<lambda>s.
     flow_bind
       (if c_op (here (fst s)) AND 0xf0 = 0 then
          flow_bind (lookup2 in_f distcode (on_ib (\<lambda>m. m\<lparr>last_code := here m\<rparr>) s)) (\<lambda>s.
            Next (on_ib (\<lambda>m. DROPBITS (unat (c_bits (last_code m))) m) s))
        else Next s)
       (\<lambda>s. Next (on_ib (\<lambda>m.
          let m = DROPBITS (unat (c_bits (here m))) m in
          if c_op (here m) AND 64 \<noteq> 0 then m\<lparr>msg := Some ''invalid distance code'', mode := M_BAD\<rparr>
          else m\<lparr>s_offset := unat (c_val (here m))\<rparr>) s)))"

text \<open>The extra bits of a distance code.\<close>

definition dist_extra :: "'i in_func \<Rightarrow> ('i, 'o) mach \<Rightarrow> ('i, 'o) mach flow" where
  "dist_extra in_f s =
     (let s = on_ib (\<lambda>m. m\<lparr>extra := unat (c_op (here m) AND 15)\<rparr>) s in
      if extra (fst s) \<noteq> 0 then
        flow_bind (NEEDBITS in_f (extra (fst s)) s) (\<lambda>s.
          Next (on_ib (\<lambda>m. DROPBITS (extra m) (m\<lparr>s_offset := s_offset m + BITS (extra m) m\<rparr>)) s))
      else Next s)"

text \<open>
  The check of the distance and the copy:
  \<^verbatim>\<open>if (state->offset > state->wsize - (state->whave < state->wsize ? left : 0)) { ... }\<close>
\<close>

definition match :: "'o out_func \<Rightarrow> ('i, 'o) mach \<Rightarrow> ('i, 'o) mach flow" where
  "match out_f s =
     (if s_offset (fst s) > wsize (fst s) - (if whave (fst s) < wsize (fst s) then left (fst s) else 0) then
        Next (on_ib (\<lambda>m. m\<lparr>msg := Some ''invalid distance too far back'', mode := M_BAD\<rparr>) s)
      else match_copy out_f s)"

definition LEN_case :: "ext \<Rightarrow> 'i in_func \<Rightarrow> 'o out_func \<Rightarrow> ('i, 'o) mach \<Rightarrow> ('i, 'o) mach flow" where
  "LEN_case e in_f out_f s =
     (if avail_in (fst s) \<ge> 6 \<and> left (fst s) \<ge> 258 then
        Next (on_ib (\<lambda>m.
          let m = (if whave m < wsize m then m\<lparr>whave := wsize m - left m\<rparr> else m)
          in inflate_fast e m (wsize m)) s)
      else
        flow_bind (decode_len in_f s) (\<lambda>s.
          if c_op (here (fst s)) = 0 then literal out_f s
          else if c_op (here (fst s)) AND 32 \<noteq> 0 then Next (on_ib (\<lambda>m. m\<lparr>mode := M_TYPE\<rparr>) s)
          else if c_op (here (fst s)) AND 64 \<noteq> 0 then
            Next (on_ib (\<lambda>m. m\<lparr>msg := Some ''invalid literal/length code'', mode := M_BAD\<rparr>) s)
          else
            flow_bind (len_extra in_f s) (\<lambda>s.
            flow_bind (decode_dist in_f s) (\<lambda>s.
              if mode (fst s) = M_BAD then Next s
              else flow_bind (dist_extra in_f s) (match out_f)))))"

subsection \<open>case TABLE, continued\<close>

text \<open>\<^verbatim>\<open>state->nlen = BITS(5) + 257; DROPBITS(5); ...\<close>\<close>

definition table_sizes :: "ib \<Rightarrow> ib" where
  "table_sizes m =
     (let m = DROPBITS 5 (m\<lparr>nlen := BITS 5 m + 257\<rparr>);
          m = DROPBITS 5 (m\<lparr>ndist := BITS 5 m + 1\<rparr>);
          m = DROPBITS 4 (m\<lparr>ncode := BITS 4 m + 4\<rparr>)
      in m)"

text \<open>
  The three calls of \<^verbatim>\<open>inflate_table\<close>, each with the root bits set before it and the error
  taken after it. \<^verbatim>\<open>state->next\<close> starts at \<^verbatim>\<open>state->codes\<close> for the code length code and again
  for the literal/length code; the distance table follows the literal/length table.
\<close>

definition build_codes :: "ext \<Rightarrow> ib \<Rightarrow> ib" where
  "build_codes e m =
     (case inflate_table e CODES (take 19 (lens m)) 19 7 of
        (ret, table, b) \<Rightarrow>
          let m = m\<lparr>lencode := table, lenbits := b\<rparr> in
          if ret \<noteq> 0 then m\<lparr>msg := Some ''invalid code lengths set'', mode := M_BAD\<rparr> else m)"

definition build_lens :: "ext \<Rightarrow> ib \<Rightarrow> ib" where
  "build_lens e m =
     (case inflate_table e LENS (take (nlen m) (lens m)) (nlen m) 9 of
        (ret, table, b) \<Rightarrow>
          let m = m\<lparr>lencode := table, lenbits := b\<rparr> in
          if ret \<noteq> 0 then m\<lparr>msg := Some ''invalid literal/lengths set'', mode := M_BAD\<rparr> else m)"

definition build_dists :: "ext \<Rightarrow> ib \<Rightarrow> ib" where
  "build_dists e m =
     (case inflate_table e DISTS (take (ndist m) (drop (nlen m) (lens m))) (ndist m) 6 of
        (ret, table, b) \<Rightarrow>
          let m = m\<lparr>distcode := table, distbits := b\<rparr> in
          if ret \<noteq> 0 then m\<lparr>msg := Some ''invalid distances set'', mode := M_BAD\<rparr> else m)"

definition TABLE_case :: "ext \<Rightarrow> 'i in_func \<Rightarrow> 'o out_func \<Rightarrow> ('i, 'o) mach \<Rightarrow> ('i, 'o) mach flow" where
  "TABLE_case e in_f out_f s =
     flow_bind (NEEDBITS in_f 14 s) (\<lambda>s.
       let s = on_ib table_sizes s in
       if nlen (fst s) > 286 \<or> ndist (fst s) > 30 then
         Next (on_ib (\<lambda>m. m\<lparr>msg := Some ''too many length or distance symbols'', mode := M_BAD\<rparr>) s)
       else
         flow_bind (read_lenlens in_f (on_ib (\<lambda>m. m\<lparr>s_have := 0\<rparr>) s)) (\<lambda>s.
           let s = on_ib (\<lambda>m. build_codes e (zero_lenlens m)) s in
           if mode (fst s) = M_BAD then Next s
           else
             flow_bind (codelens in_f (on_ib (\<lambda>m. m\<lparr>s_have := 0\<rparr>) s)) (\<lambda>s.
               if mode (fst s) = M_BAD then Next s
               else if lens (fst s) ! 256 = 0 then
                 Next (on_ib (\<lambda>m. m\<lparr>msg := Some ''invalid code -- missing end-of-block'',
                                    mode := M_BAD\<rparr>) s)
               else
                 let s = on_ib (build_lens e) s in
                 if mode (fst s) = M_BAD then Next s
                 else
                   let s = on_ib (build_dists e) s in
                   if mode (fst s) = M_BAD then Next s
                   else LEN_case e in_f out_f (on_ib (\<lambda>m. m\<lparr>mode := M_LEN\<rparr>) s))))"

subsection \<open>The loop and the function\<close>

text \<open>One round of \<^verbatim>\<open>for (;;) switch (state->mode)\<close>.\<close>

definition inflateBack_switch :: "ext \<Rightarrow> 'i in_func \<Rightarrow> 'o out_func \<Rightarrow> ('i, 'o) mach \<Rightarrow> ('i, 'o) mach flow" where
  "inflateBack_switch e in_f out_f s =
     (case mode (fst s) of
        M_TYPE \<Rightarrow> TYPE_case e in_f s
      | M_STORED \<Rightarrow> STORED_case in_f out_f s
      | M_TABLE \<Rightarrow> TABLE_case e in_f out_f s
      | M_LEN \<Rightarrow> LEN_case e in_f out_f s
      | M_DONE \<Rightarrow> Leave Z_STREAM_END s
      | M_BAD \<Rightarrow> Leave Z_DATA_ERROR s
      | M_OTHER \<Rightarrow> Leave Z_STREAM_ERROR s)"

text \<open>
  The loop has no bound of its own: the callbacks decide how long it runs. It is given
  fuel, one unit per round; \<open>None\<close> says the fuel ran out before \<^verbatim>\<open>inf_leave\<close> was reached.
\<close>

fun inflateBack_loop :: "ext \<Rightarrow> 'i in_func \<Rightarrow> 'o out_func \<Rightarrow> nat \<Rightarrow> ('i, 'o) mach \<Rightarrow> ('i, 'o) mach flow option" where
  "inflateBack_loop e in_f out_f 0 s = None"
| "inflateBack_loop e in_f out_f (Suc n) s =
     (case inflateBack_switch e in_f out_f s of
        Next s' \<Rightarrow> inflateBack_loop e in_f out_f n s'
      | Leave r s' \<Rightarrow> Some (Leave r s')
      | Fault \<Rightarrow> Some Fault)"




text \<open>
  The function. A stream that is \<^verbatim>\<open>Z_NULL\<close> or whose state is \<^verbatim>\<open>Z_NULL\<close> is \<open>None\<close>.
  \<^verbatim>\<open>have = next != Z_NULL ? strm->avail_in : 0\<close> is the length of the input list.
\<close>

definition inflateBack_reset :: "ib \<Rightarrow> ib" where
  "inflateBack_reset m =
     m\<lparr>msg := None, mode := M_TYPE, s_last := 0, whave := 0,
       hold := 0, bits := 0, put := 0, left := wsize m\<rparr>"


lemma flow_bind_Next [simp]: "flow_bind (Next s) g = g s"
  by (simp add: flow_bind_def)

lemma flow_bind_Leave [simp]: "flow_bind (Leave r s) g = Leave r s"
  by (simp add: flow_bind_def)

lemma flow_bind_Fault [simp]: "flow_bind Fault g = Fault"
  by (simp add: flow_bind_def)

subsection \<open>Callbacks that record their calls\<close>





definition in_log :: "ib \<times> ('i \<times> Bytef list list) \<times> 'o \<Rightarrow> Bytef list list" where
  "in_log s = snd (fst (snd s))"

definition out_log :: "ib \<times> 'i \<times> ('o \<times> (Bytef list \<times> int) list) \<Rightarrow> (Bytef list \<times> int) list" where
  "out_log s = snd (snd (snd s))"


subsection \<open>What a piece of the body leaves alone\<close>

definition bad_msg :: "ib \<Rightarrow> bool" where
  "bad_msg m = (mode m = M_BAD \<longrightarrow> msg m \<noteq> None)"

definition mode_kept :: "ib \<Rightarrow> ib \<Rightarrow> bool" where
  "mode_kept m m' = (mode m' = mode m \<or> mode m' \<noteq> M_DONE \<and> mode m' \<noteq> M_OTHER)"

definition ib_frame :: "ib \<Rightarrow> ib \<Rightarrow> bool" where
  "ib_frame m m' =
     (s_last m' = s_last m \<and> mode_kept m m' \<and> (bad_msg m \<longrightarrow> bad_msg m')
      \<and> (next_in m \<noteq> None \<longrightarrow> next_in m' \<noteq> None))"



definition frame :: "('i \<Rightarrow> bool) \<Rightarrow> ('o \<Rightarrow> bool) \<Rightarrow> ('i, 'o) mach \<Rightarrow> ('i, 'o) mach \<Rightarrow> bool" where
  "frame fi fo s s' =
     (ib_frame (fst s) (fst s')
      \<and> (fi (fst (snd s')) \<longrightarrow> fi (fst (snd s)))
      \<and> (fo (snd (snd s')) \<longrightarrow> fo (snd (snd s))))"

definition leaves :: "('i \<Rightarrow> bool) \<Rightarrow> ('o \<Rightarrow> bool) \<Rightarrow> ('i, 'o) mach \<Rightarrow> int \<Rightarrow> ('i, 'o) mach \<Rightarrow> bool" where
  "leaves fi fo s r s' =
     (r = Z_BUF_ERROR \<and> s_last (fst s') = s_last (fst s) \<and> mode_kept (fst s) (fst s')
      \<and> (next_in (fst s') = None \<and> fi (fst (snd s'))
           \<and> (fo (snd (snd s')) \<longrightarrow> fo (snd (snd s)))
         \<or> (next_in (fst s) \<noteq> None \<longrightarrow> next_in (fst s') \<noteq> None)
           \<and> (fi (fst (snd s')) \<longrightarrow> fi (fst (snd s)))
           \<and> fo (snd (snd s'))))"


definition ok :: "bool \<Rightarrow> ('i \<Rightarrow> bool) \<Rightarrow> ('o \<Rightarrow> bool) \<Rightarrow> ('i, 'o) mach \<Rightarrow> ('i, 'o) mach flow \<Rightarrow> bool" where
  "ok T fi fo s res =
     (T \<longrightarrow> (case res of Next s' \<Rightarrow> frame fi fo s s' | Leave r s' \<Rightarrow> leaves fi fo s r s' | Fault \<Rightarrow> True))"

lemma mode_kept_refl [simp]: "mode_kept m m"
  by (simp add: mode_kept_def)


lemma ib_frame_refl [simp]: "ib_frame m m"
  by (simp add: ib_frame_def)


lemma frame_refl [simp]: "frame fi fo s s"
  by (simp add: frame_def)




lemma ok_Fault [simp]: "ok T fi fo s Fault"
  by (simp add: ok_def)







































lemma fst_on_ib [simp]: "fst (on_ib f s) = f (fst s)"
  by (cases s) (simp add: on_ib_def)

lemma snd_on_ib [simp]: "snd (on_ib f s) = snd s"
  by (cases s) (simp add: on_ib_def)



























text \<open>The loop never leaves with a \<open>Next\<close>.\<close>

lemma loop_not_Next: "inflateBack_loop e in_f out_f fuel s \<noteq> Some (Next s')"
  by (induction fuel arbitrary: s) (auto split: flow.splits)












text \<open>A stream record with every field zero, and stand-ins for the code that is not here.\<close>

definition ib_zero :: ib where
  "ib_zero = \<lparr>next_in = None, msg = None, mode = M_OTHER, s_last = 0, wbits = 0, whave = 0, wnext = 0,
     dmax = 0, sane = 0, window = [], hold = 0, bits = 0, s_length = 0, s_offset = 0,
     extra = 0, lencode = [], distcode = [], lenbits = 0, distbits = 0, ncode = 0, nlen = 0, ndist = 0,
     s_have = 0, lens = [], put = 0, left = 0, here = \<lparr>c_op = 0, c_bits = 0, c_val = 0\<rparr>,
     last_code = \<lparr>c_op = 0, c_bits = 0, c_val = 0\<rparr>, v_copy = 0, v_len = 0\<rparr>"

definition ext_none :: ext where
  "ext_none = \<lparr>inflate_table = (\<lambda>t l c b. (1, [], b)), inflate_fast = (\<lambda>m start. m\<lparr>mode := M_TYPE\<rparr>),
     lenfix = [], distfix = []\<rparr>"



definition in_list :: "Bytef list list in_func" where
  "in_list cs = (case cs of [] \<Rightarrow> ([], []) | c # cs' \<Rightarrow> (c, cs'))"

definition out_ok :: "unit out_func" where
  "out_ok u buf = (0, u)"






subsection \<open>The value returned\<close>



subsection \<open>The end of the stream\<close>


text \<open>
  The state in which round \<open>k\<close> of the loop begins, counted from 0, if the loop gets
  that far.
\<close>

fun inflateBack_rounds :: "ext \<Rightarrow> 'i in_func \<Rightarrow> 'o out_func \<Rightarrow> nat \<Rightarrow> ('i, 'o) mach \<Rightarrow> ('i, 'o) mach option" where
  "inflateBack_rounds e in_f out_f 0 s = Some s"
| "inflateBack_rounds e in_f out_f (Suc k) s =
     (case inflateBack_switch e in_f out_f s of
        Next s' \<Rightarrow> inflateBack_rounds e in_f out_f k s'
      | Leave r s' \<Rightarrow> None
      | Fault \<Rightarrow> None)"









lemma rounds_empty_stored:
  "inflateBack_rounds ext_none in_list out_ok 0
     (inflateBack_reset (ib_zero\<lparr>wbits := 3, window := replicate 8 0\<rparr>), [[1, 0, 0, 255, 255]], ())
   = Some (inflateBack_reset (ib_zero\<lparr>wbits := 3, window := replicate 8 0\<rparr>), [[1, 0, 0, 255, 255]], ())"
  by simp


end
